theory Spec2Isabelle
  imports Main "HOL-Library.Word"
begin

section \<open>The proxy socket bridge of \<open>src/browser/transports/chromium_socket.ts\<close>\<close>

text \<open>
  The module opens an upstream connection through the network layer of the browser
  (\<open>net.request\<close> with \<open>dataSocket: true\<close>) and bridges it to a TCP server on localhost.
  All of its work happens in listeners. The embedding turns every listener into a
  function from the state of the module to the new state and the list of calls the
  listener makes on its collaborators (the upstream request, the local server, the
  sockets, the callbacks of the caller, the event bus, the log). The runtime (Electron
  and Node) is the environment: it delivers events, one at a time, and the listeners
  registered for the event run to completion before the next event is delivered.
\<close>

subsection \<open>Objects of the runtime\<close>

text \<open>
  Objects are named by numbers. Request objects and servers are created by the module
  itself (\<open>net.request(...)\<close>, \<open>nodeNet.createServer(...)\<close>) and are numbered in order of
  creation. Sockets, response streams and the functions of the caller are created outside
  the module and arrive as arguments.
\<close>

type_synonym request_ref = nat
type_synonym server_ref = nat
type_synonym socket_ref = nat
type_synonym response_ref = nat
type_synonym fn_ref = nat

type_synonym Buffer = "8 word list"

subsection \<open>Interfaces of the source\<close>

record RequestProtocol =
  port :: nat
  secureProtocol :: "string option"
  chromiumProtocol :: "string option"

text \<open>
  The object returned by \<open>parse\<close> of Node's \<open>url\<close> module, with the fields from which
  \<open>format\<close> writes such an object back; an absent field is \<open>null\<close> in Node and \<open>None\<close>
  here.
\<close>

record Url =
  protocol :: "string option"
  slashes :: bool
  auth :: "string option"
  host :: "string option"
  port :: "string option"
  hostname :: "string option"
  pathname :: "string option"
  search :: "string option"
  hash :: "string option"

record ProxyData =
  port :: nat
  originalUrl :: string

record CreateProxyResponse =
  success :: bool
  data :: "ProxyData option"

record CreateProxyRequest =
  url :: string
  callback :: fn_ref
  errorCallback :: "fn_ref option"

record AuthProxyRequest =
  url :: string
  username :: string
  password :: string

record ProxyAuthEvent =
  url :: string
  isProxy :: bool

text \<open>
  \<open>ProxyEvent\<close> is a tagged union: the tag is its \<open>eventType\<close> and the payload is the
  port of the server for \<open>Listening\<close>, the bytes for \<open>Data\<close>, and absent otherwise.
\<close>

datatype ProxyEvent =
    Open
  | Listening nat
  | Data Buffer
  | Closed

subsection \<open>The protocol table and the remapping step\<close>

definition ProtocolMap :: "string \<rightharpoonup> RequestProtocol" where
  "ProtocolMap = [
     ''rtmp:'' \<mapsto> \<lparr>RequestProtocol.port = 1935, secureProtocol = Some ''rtmps:'',
                  chromiumProtocol = Some ''http:''\<rparr>,
     ''rtmps:'' \<mapsto> \<lparr>RequestProtocol.port = 443, secureProtocol = None,
                   chromiumProtocol = Some ''https:''\<rparr>,
     ''http:'' \<mapsto> \<lparr>RequestProtocol.port = 80, secureProtocol = Some ''https:'',
                  chromiumProtocol = None\<rparr>,
     ''https:'' \<mapsto> \<lparr>RequestProtocol.port = 443, secureProtocol = None,
                   chromiumProtocol = None\<rparr>]"

text \<open>An optional string in a condition: absent and the empty string count as false.\<close>

definition truthy :: "string option \<Rightarrow> bool" where
  "truthy v = (case v of None \<Rightarrow> False | Some s \<Rightarrow> s \<noteq> [])"

text \<open>
  The exception that the module can raise by itself: the \<open>TypeError\<close> of the language
  for a call of something that is not a function, with its message.
\<close>

datatype error = TypeError string

text \<open>
  The calls the listeners make. \<open>WriteToLog\<close> carries the fixed text of the message;
  the values interpolated into it are left out. \<open>Callback\<close> and \<open>ErrorCallback\<close> name the
  request object whose listeners make the call, then the function of the caller and
  its argument. \<open>AuthenticateMember r k\<close> is what lines 196 to 198 do with the member
  \<open>k\<close> of the request object \<open>r\<close>, a value that the runtime provides and the source
  does not determine: nothing when the member is absent or falsy, a call of its
  \<open>authenticateSocket\<close> when it has one, and a \<open>TypeError\<close> otherwise. \<open>Raise\<close> is an
  exception that leaves the module and reaches its caller.
\<close>

datatype action =
    WriteToLog string
  | NetRequest request_ref string
  | CreateConnection request_ref
  | WriteSocket request_ref Buffer
  | CloseSocket request_ref
  | AuthenticateSocket request_ref string string
  | AuthenticateMember request_ref string string string
  | Raise error
  | Callback request_ref fn_ref CreateProxyResponse
  | ErrorCallback request_ref fn_ref string
  | OfEventsEmit string ProxyAuthEvent
  | CreateServer server_ref
  | SetMaxConnections server_ref nat
  | ServerListen server_ref nat string
  | ServerClose server_ref
  | ConnWrite socket_ref Buffer
  | ConnEnd socket_ref
  | ConnDestroy socket_ref

text \<open>
  Lines 72 to 84 of \<open>createChromiumSocket\<close>: the protocol of \<open>mappedUrl\<close> is replaced
  by the protocol the network layer has to use. The result is the new \<open>mappedUrl\<close> and
  the line written to the log on the way.
\<close>

definition remapProtocol :: "Url \<Rightarrow> Url \<Rightarrow> Url \<times> action list" where
  "remapProtocol original mappedUrl =
     (case protocol original of
        None \<Rightarrow> (mappedUrl, [])
      | Some p \<Rightarrow>
          (case ProtocolMap p of
             None \<Rightarrow> (mappedUrl, [])
           | Some reqProtocol \<Rightarrow>
               if truthy (chromiumProtocol reqProtocol) then
                 (let mapped = mappedUrl\<lparr>protocol := chromiumProtocol reqProtocol\<rparr> in
                  if Url.port original = Some ''443'' \<and> truthy (secureProtocol reqProtocol)
                  then
                    (case secureProtocol reqProtocol of
                       None \<Rightarrow> (mapped, [])
                     | Some sp \<Rightarrow>
                         (case ProtocolMap sp of
                            None \<Rightarrow> (mapped, [WriteToLog ''applying secure protocol: ''])
                          | Some secure \<Rightarrow>
                              (mapped\<lparr>protocol := chromiumProtocol secure\<rparr>,
                               [WriteToLog ''applying secure protocol: ''])))
                  else (mapped, []))
               else (mappedUrl, [])))"

subsection \<open>State of the module\<close>

text \<open>
  \<open>Session\<close> holds the variables of one call of \<open>createChromiumSocket\<close> that its
  listeners capture: the request object, the request of the caller and the parsed
  original URL. None of them is assigned after the call.
\<close>

record Session =
  request :: request_ref
  req :: CreateProxyRequest
  originalUrl :: Url

text \<open>
  \<open>Proxy\<close> holds the variables of one call of \<open>startProxyConnection\<close>: its two
  parameters and the variable \<open>clientConn\<close>. The parameter \<open>proxyCallback\<close> is the
  closure built by the \<open>requestSocketConnected\<close> listener, kept as the variables it
  captures. The server the call creates is the index of the entry.
\<close>

record Proxy =
  proxyCallback :: Session
  response :: response_ref
  clientConn :: "socket_ref option"

text \<open>
  \<open>requestMap\<close> is the registry of the source: a plain object, created by \<open>{}\<close> on line
  50, that is used as a dictionary from URL strings to request objects. The model keeps
  what the assignments of line 89 have put into the object. For a key other than
  \<open>__proto__\<close> that is the own property of the object under the key. For the key
  \<open>__proto__\<close> it is the prototype of the object: an assignment under that key runs the
  setter that every object inherits from \<open>Object.prototype\<close>, which makes the assigned
  request object the prototype and creates no own property. A new object has the
  prototype \<open>Object.prototype\<close>, and the model then has no entry for \<open>__proto__\<close>.
  \<open>requests\<close> and \<open>servers\<close> list the calls of
  \<open>createChromiumSocket\<close> and \<open>startProxyConnection\<close> made so far. \<open>relays\<close> lists, in the
  order of their registration, the listener sets of lines 139 to 162: the entry
  \<open>(server, conn)\<close> stands for the five listeners on the socket \<open>conn\<close> and for the
  \<open>data\<close> listener on the response stream of \<open>server\<close> that writes to \<open>conn\<close>.
\<close>

record state =
  requestMap :: "string \<rightharpoonup> request_ref"
  requests :: "Session list"
  servers :: "Proxy list"
  relays :: "(server_ref \<times> socket_ref) list"

definition init :: state where
  "init = \<lparr>requestMap = Map.empty, requests = [], servers = [], relays = []\<rparr>"

subsection \<open>Reading and deleting a property of the registry\<close>

text \<open>
  The source reads the registry with \<open>requestMap[req.url]\<close> (line 195) and removes an
  entry with \<open>delete requestMap[req.url]\<close> (line 121), with no test that the key is an
  own property of the object (the test \<open>hasOwnProperty\<close> that lines 72 and 79 make before
  they read \<open>ProtocolMap\<close>). Reading a property of an object that has no own property
  of that name goes on to the prototype of the object, so the read finds what the
  prototype provides.

  \<open>objectPrototypeNames\<close> are the names under which \<open>Object.prototype\<close> provides a
  function: those of the language standard and those of its annex B. The name
  \<open>__proto__\<close>, under which it provides the accessor of the prototype, is treated on its
  own below.
\<close>

definition objectPrototypeNames :: "string list" where
  "objectPrototypeNames =
     [''constructor'', ''hasOwnProperty'', ''isPrototypeOf'', ''propertyIsEnumerable'',
      ''toLocaleString'', ''toString'', ''valueOf'', ''__defineGetter__'', ''__defineSetter__'',
      ''__lookupGetter__'', ''__lookupSetter__'']"

text \<open>
  What a read of the registry gives: \<open>undefined\<close>; a request object that line 89 stored;
  the object \<open>Object.prototype\<close> itself; the function that \<open>Object.prototype\<close> provides
  under a name; or, once a request object is the prototype of the registry, the member
  of that request object under a name, whatever the runtime has put there (a request
  object is an object of the runtime, and it inherits from \<open>Object.prototype\<close> in its
  turn).
\<close>

datatype jsvalue =
    Undefined
  | RequestObject request_ref
  | ObjectPrototype
  | ObjectPrototypeMember string
  | RequestMember request_ref string

text \<open>
  \<open>getProperty m k\<close> is the value of \<open>requestMap[k]\<close>. Under \<open>__proto__\<close> the read gives
  the prototype of the object. Under another key it gives the own property when there
  is one, and otherwise what the prototype has under the key.
\<close>

definition getProperty :: "(string \<rightharpoonup> request_ref) \<Rightarrow> string \<Rightarrow> jsvalue" where
  "getProperty m k =
     (if k = ''__proto__'' then
        (case m k of
           Some r \<Rightarrow> RequestObject r
         | None \<Rightarrow> ObjectPrototype)
      else
        (case m k of
           Some r \<Rightarrow> RequestObject r
         | None \<Rightarrow>
             (case m ''__proto__'' of
                None \<Rightarrow> if k \<in> set objectPrototypeNames then ObjectPrototypeMember k
                        else Undefined
              | Some p \<Rightarrow> RequestMember p k)))"

text \<open>
  \<open>deleteProperty m k\<close> is the registry after \<open>delete requestMap[k]\<close>. The operator
  removes an own property and nothing else; the prototype is no own property, so under
  \<open>__proto__\<close> it removes nothing.
\<close>

definition deleteProperty :: "(string \<rightharpoonup> request_ref) \<Rightarrow> string \<Rightarrow> (string \<rightharpoonup> request_ref)" where
  "deleteProperty m k = (if k = ''__proto__'' then m else m(k := None))"

text \<open>
  An assignment \<open>requestMap[k] = request\<close> puts the request object under the key in
  either case, as the own property or as the prototype, so it is the update
  \<open>m(k \<mapsto> r)\<close> of the map. (The members of \<open>Object.prototype\<close> are writable, so an
  assignment under one of their names creates the own property. Once a request object
  is the prototype, the model takes the same for the members of that object, which the
  source does not determine.)
\<close>

subsection \<open>\<open>createChromiumSocket\<close> and the listeners on the request object\<close>

text \<open>
  \<open>parseUrl\<close> and \<open>formatUrl\<close> of Node's \<open>url\<close> module are parameters of the model.
  The request object created by \<open>net.request\<close> is the next free index of \<open>requests\<close>.
\<close>

definition createChromiumSocket ::
    "(string \<Rightarrow> Url) \<Rightarrow> (Url \<Rightarrow> string) \<Rightarrow> CreateProxyRequest \<Rightarrow> state \<Rightarrow> state \<times> action list" where
  "createChromiumSocket parseUrl formatUrl rq st =
     (let original = parseUrl (CreateProxyRequest.url rq);
          (mappedUrl, logged) = remapProtocol original (parseUrl (CreateProxyRequest.url rq));
          u = formatUrl mappedUrl;
          r = length (requests st)
      in (st\<lparr>requestMap := (requestMap st)(CreateProxyRequest.url rq \<mapsto> r),
             requests := requests st @ [\<lparr>request = r, req = rq, originalUrl = original\<rparr>]\<rparr>,
          logged @ [WriteToLog ''mapped URL: '', NetRequest r u, CreateConnection r]))"

text \<open>
  The same function statement by statement: its calls in the order of the source, each
  with the variables of the module as they are when the call is made. The calls up to
  \<open>net.request\<close> (line 88) are made before the registry is written (line 89); the
  listeners are registered next (lines 91 to 122), and \<open>request.createConnection()\<close>
  (line 123) is the last statement.
\<close>

definition createChromiumSocket_calls ::
    "(string \<Rightarrow> Url) \<Rightarrow> (Url \<Rightarrow> string) \<Rightarrow> CreateProxyRequest \<Rightarrow> state \<Rightarrow> (state \<times> action) list" where
  "createChromiumSocket_calls parseUrl formatUrl rq st =
     (let original = parseUrl (CreateProxyRequest.url rq);
          (mappedUrl, logged) = remapProtocol original (parseUrl (CreateProxyRequest.url rq));
          u = formatUrl mappedUrl;
          r = length (requests st);
          registered = st\<lparr>requestMap := (requestMap st)(CreateProxyRequest.url rq \<mapsto> r)\<rparr>;
          listened = registered\<lparr>requests := requests st @
                       [\<lparr>request = r, req = rq, originalUrl = original\<rparr>]\<rparr>
      in map (Pair st) (logged @ [WriteToLog ''mapped URL: '', NetRequest r u]) @
         [(listened, CreateConnection r)])"

text \<open>
  The closure passed to \<open>startProxyConnection\<close> (lines 93 to 106), applied to the
  variables \<open>c\<close> it captures.
\<close>

fun onProxyEvent :: "(Url \<Rightarrow> string) \<Rightarrow> Session \<Rightarrow> ProxyEvent \<Rightarrow> action list" where
  "onProxyEvent formatUrl c (Data payload) =
     [WriteToLog ''proxy socket output chromium data: '', WriteSocket (request c) payload]"
| "onProxyEvent formatUrl c Closed =
     [WriteToLog ''close chromium socket'', CloseSocket (request c)]"
| "onProxyEvent formatUrl c (Listening payload) =
     [Callback (request c) (callback (req c))
        \<lparr>success = True,
         data = Some \<lparr>ProxyData.port = payload,
                      originalUrl = formatUrl (Session.originalUrl c)\<rparr>\<rparr>]"
| "onProxyEvent formatUrl c Open = []"

text \<open>
  \<open>startProxyConnection\<close> up to \<open>server.listen\<close>: the server is created, the listeners
  are registered and the server is asked to listen on an ephemeral port of localhost.
\<close>

definition startProxyConnection :: "Session \<Rightarrow> response_ref \<Rightarrow> state \<Rightarrow> state \<times> action list" where
  "startProxyConnection cb resp st =
     (let server = length (servers st)
      in (st\<lparr>servers := servers st @ [\<lparr>proxyCallback = cb, response = resp, clientConn = None\<rparr>]\<rparr>,
          [CreateServer server, SetMaxConnections server 1, ServerListen server 0 ''localhost'']))"

definition onRequestSocketConnected :: "Session \<Rightarrow> response_ref \<Rightarrow> state \<Rightarrow> state \<times> action list" where
  "onRequestSocketConnected c resp st =
     (let (st', acts) = startProxyConnection c resp st
      in (st', WriteToLog ''requestSocketConnected'' # acts))"

definition onSocketAuthRequired :: "ProxyAuthEvent \<Rightarrow> action list" where
  "onSocketAuthRequired event =
     [WriteToLog ''proxy socket auth requested: '',
      OfEventsEmit ''proxy-socket-auth-requested''
        \<lparr>ProxyAuthEvent.url = ProxyAuthEvent.url event, isProxy = isProxy event\<rparr>]"

definition onRequestError :: "Session \<Rightarrow> string \<Rightarrow> action list" where
  "onRequestError c err =
     [WriteToLog ''proxy socket request error '', CloseSocket (request c)] @
     (case errorCallback (req c) of
        Some f \<Rightarrow> [ErrorCallback (request c) f err]
      | None \<Rightarrow> [])"

definition onRequestClose :: "Session \<Rightarrow> state \<Rightarrow> state \<times> action list" where
  "onRequestClose c st =
     (st\<lparr>requestMap := deleteProperty (requestMap st) (CreateProxyRequest.url (req c))\<rparr>,
      [WriteToLog ''proxy socket request closed, clean up ''])"

subsection \<open>The listeners of \<open>startProxyConnection\<close>\<close>

text \<open>The connection listener of the server (lines 135 to 167).\<close>

definition onConnection :: "server_ref \<Rightarrow> socket_ref \<Rightarrow> state \<Rightarrow> state \<times> action list" where
  "onConnection server conn st =
     (case clientConn (servers st ! server) of
        None \<Rightarrow>
          (st\<lparr>servers := (servers st)[server := (servers st ! server)\<lparr>clientConn := Some conn\<rparr>],
              relays := relays st @ [(server, conn)]\<rparr>,
           [WriteToLog ''proxy socket new connection ''])
      | Some first \<Rightarrow>
          (st, [WriteToLog ''proxy socket duplicate connection: '', ConnEnd conn]))"

text \<open>The listeners on the accepted socket, for the proxy \<open>server\<close> that registered them.\<close>

definition onConnData :: "(Url \<Rightarrow> string) \<Rightarrow> state \<Rightarrow> server_ref \<Rightarrow> Buffer \<Rightarrow> action list" where
  "onConnData formatUrl st server d =
     WriteToLog ''proxy socket input data '' #
     onProxyEvent formatUrl (proxyCallback (servers st ! server)) (Data d)"

definition onConnClose :: "server_ref \<Rightarrow> action list" where
  "onConnClose server = [WriteToLog ''proxy socket closed '', ServerClose server]"

text \<open>The \<open>data\<close> listener on the response stream, writing to the accepted socket.\<close>

definition onResponseData :: "socket_ref \<Rightarrow> Buffer \<Rightarrow> action list" where
  "onResponseData conn d =
     [ConnWrite conn d,
      WriteToLog ''proxy socket input chromium data: '',
      WriteToLog ''proxy socket input chromium data: '']"

text \<open>The \<open>error\<close> listener on the response stream (lines 169 to 176).\<close>

definition onResponseError :: "state \<Rightarrow> server_ref \<Rightarrow> action list" where
  "onResponseError st server =
     WriteToLog ''proxy socket response error: '' #
     (case clientConn (servers st ! server) of
        Some conn \<Rightarrow> [ConnDestroy conn]
      | None \<Rightarrow> [ServerClose server])"

definition onListening :: "(Url \<Rightarrow> string) \<Rightarrow> state \<Rightarrow> server_ref \<Rightarrow> nat \<Rightarrow> action list" where
  "onListening formatUrl st server p =
     WriteToLog ''proxy server info '' #
     onProxyEvent formatUrl (proxyCallback (servers st ! server)) (Listening p)"

definition onServerClose :: "(Url \<Rightarrow> string) \<Rightarrow> state \<Rightarrow> server_ref \<Rightarrow> action list" where
  "onServerClose formatUrl st server =
     WriteToLog ''proxy server closed'' #
     onProxyEvent formatUrl (proxyCallback (servers st ! server)) Closed"

definition onServerError :: "server_ref \<Rightarrow> action list" where
  "onServerError server = [WriteToLog ''proxy server error '', ServerClose server]"

subsection \<open>\<open>authenticateChromiumSocket\<close>\<close>

text \<open>
  Lines 195 to 198. The value read from the registry is tested for truth and, when it
  passes, its member \<open>authenticateSocket\<close> is called. A request object has that member.
  \<open>Object.prototype\<close> and the functions it provides are objects, so they pass the test,
  and they have no member \<open>authenticateSocket\<close>: the call raises the \<open>TypeError\<close> of the
  language, and the exception leaves the function.
\<close>

definition authenticateChromiumSocket ::
    "AuthProxyRequest \<Rightarrow> state \<Rightarrow> error + state \<times> action list" where
  "authenticateChromiumSocket rq st =
     (case getProperty (requestMap st) (AuthProxyRequest.url rq) of
        Undefined \<Rightarrow> Inr (st, [])
      | RequestObject r \<Rightarrow> Inr (st, [AuthenticateSocket r (username rq) (password rq)])
      | ObjectPrototype \<Rightarrow> Inl (TypeError ''request.authenticateSocket is not a function'')
      | ObjectPrototypeMember k \<Rightarrow>
          Inl (TypeError ''request.authenticateSocket is not a function'')
      | RequestMember r k \<Rightarrow> Inr (st, [AuthenticateMember r k (username rq) (password rq)]))"

subsection \<open>Events and runs\<close>

text \<open>
  What the environment does: the two calls of the caller, and the events emitted by the
  objects of the runtime. An event on a request object or on a server names the object
  by its index; \<open>OnListening\<close> carries the port reported by \<open>server.address()\<close>.
\<close>

datatype event =
    CallCreateChromiumSocket CreateProxyRequest
  | CallAuthenticateChromiumSocket AuthProxyRequest
  | OnRequestSocketConnected request_ref response_ref
  | OnSocketAuthRequired request_ref ProxyAuthEvent
  | OnRequestError request_ref string
  | OnRequestClose request_ref
  | OnConnection server_ref socket_ref
  | OnListening server_ref nat
  | OnServerClose server_ref
  | OnServerError server_ref string
  | OnConnData socket_ref Buffer
  | OnConnClose socket_ref bool
  | OnConnEnd socket_ref
  | OnConnTimeout socket_ref
  | OnConnError socket_ref string
  | OnResponseData response_ref Buffer
  | OnResponseError response_ref string

text \<open>
  A call of the caller runs the function called. An exception that leaves the function
  reaches the caller; the variables of the module stay as they were, and the run goes on
  with the next event.

  An event runs the listeners registered for it, in the order of their registration.
  A request object has its four listeners from its creation and a server its four
  listeners from its creation, so an event on an object that was never created has no
  listener. The listeners on a socket are those of the entries of \<open>relays\<close> for that
  socket; the \<open>data\<close> listeners on a response stream are those of the entries of
  \<open>relays\<close> whose proxy was started with that stream; the \<open>error\<close> listeners on a
  response stream are those of the proxies started with it. An event without a
  listener does nothing in the model. (Node raises an \<open>error\<close> event that has no
  listener as an exception; of the objects here, only a socket that was turned away as
  a duplicate has no \<open>error\<close> listener.)
\<close>

definition onSocket :: "state \<Rightarrow> socket_ref \<Rightarrow> (server_ref \<Rightarrow> action list) \<Rightarrow> action list" where
  "onSocket st conn listener =
     concat (map (\<lambda>(server, c). if c = conn then listener server else []) (relays st))"

fun step :: "(string \<Rightarrow> Url) \<Rightarrow> (Url \<Rightarrow> string) \<Rightarrow> state \<Rightarrow> event \<Rightarrow> state \<times> action list" where
  "step parseUrl formatUrl st (CallCreateChromiumSocket rq) =
     createChromiumSocket parseUrl formatUrl rq st"
| "step parseUrl formatUrl st (CallAuthenticateChromiumSocket rq) =
     (case authenticateChromiumSocket rq st of
        Inl err \<Rightarrow> (st, [Raise err])
      | Inr result \<Rightarrow> result)"
| "step parseUrl formatUrl st (OnRequestSocketConnected r resp) =
     (if r < length (requests st) then onRequestSocketConnected (requests st ! r) resp st
      else (st, []))"
| "step parseUrl formatUrl st (OnSocketAuthRequired r ev) =
     (if r < length (requests st) then (st, onSocketAuthRequired ev) else (st, []))"
| "step parseUrl formatUrl st (OnRequestError r err) =
     (if r < length (requests st) then (st, onRequestError (requests st ! r) err)
      else (st, []))"
| "step parseUrl formatUrl st (OnRequestClose r) =
     (if r < length (requests st) then onRequestClose (requests st ! r) st else (st, []))"
| "step parseUrl formatUrl st (OnConnection server conn) =
     (if server < length (servers st) then onConnection server conn st else (st, []))"
| "step parseUrl formatUrl st (OnListening server p) =
     (if server < length (servers st) then (st, onListening formatUrl st server p)
      else (st, []))"
| "step parseUrl formatUrl st (OnServerClose server) =
     (if server < length (servers st) then (st, onServerClose formatUrl st server)
      else (st, []))"
| "step parseUrl formatUrl st (OnServerError server err) =
     (if server < length (servers st) then (st, onServerError server) else (st, []))"
| "step parseUrl formatUrl st (OnConnData conn d) =
     (st, onSocket st conn (\<lambda>server. onConnData formatUrl st server d))"
| "step parseUrl formatUrl st (OnConnClose conn hadError) =
     (st, onSocket st conn onConnClose)"
| "step parseUrl formatUrl st (OnConnEnd conn) =
     (st, onSocket st conn (\<lambda>server. [WriteToLog ''proxy socket ended'']))"
| "step parseUrl formatUrl st (OnConnTimeout conn) =
     (st, onSocket st conn (\<lambda>server. [WriteToLog ''proxy socket timeout'']))"
| "step parseUrl formatUrl st (OnConnError conn err) =
     (st, onSocket st conn (\<lambda>server. [WriteToLog ''proxy socket connect error '']))"
| "step parseUrl formatUrl st (OnResponseData resp d) =
     (st, concat (map (\<lambda>(server, conn).
                     if response (servers st ! server) = resp then onResponseData conn d else [])
                   (relays st)))"
| "step parseUrl formatUrl st (OnResponseError resp err) =
     (st, concat (map (\<lambda>server.
                     if response (servers st ! server) = resp then onResponseError st server
                     else [])
                   [0 ..< length (servers st)]))"

text \<open>A run delivers a list of events in order and collects the calls made.\<close>

fun run :: "(string \<Rightarrow> Url) \<Rightarrow> (Url \<Rightarrow> string) \<Rightarrow> state \<Rightarrow> event list \<Rightarrow> state \<times> action list" where
  "run parseUrl formatUrl st [] = (st, [])"
| "run parseUrl formatUrl st (e # es) =
     (let (st', acts) = step parseUrl formatUrl st e;
          (st'', acts') = run parseUrl formatUrl st' es
      in (st'', acts @ acts'))"

subsection \<open>Node's \<open>url.parse\<close> and \<open>url.format\<close> on plain absolute URLs\<close>

text \<open>
  The general theorems hold for every \<open>parseUrl\<close> and \<open>formatUrl\<close>. To run the module on
  URL strings, \<open>node_parse\<close> and \<open>node_format\<close> follow the legacy \<open>url\<close> module of Node on
  the URLs \<open>scheme://host\<close>, \<open>scheme://host:port\<close>, \<open>scheme://host/path\<close> and
  \<open>scheme://host:port/path\<close> in which the scheme is one or more ASCII letters and is none
  of \<open>javascript\<close>, \<open>ws\<close> and \<open>wss\<close>, the host is one or more ASCII letters, digits, dots
  and hyphens, in labels of at most 63 characters and at most 255 characters in all,
  the port is one or more decimal digits, and the path is made of ASCII letters, digits,
  dots, hyphens and slashes; the URL has no user name or password, no query and no
  fragment.
  On these the scheme and the host are put in lower case, the port is split off the
  host, and an empty path becomes \<open>/\<close> for the protocols that Node lists as slashed.
  Other strings are outside what the two functions describe, and the examples use none.
\<close>

definition toLowerCase :: "string \<Rightarrow> string" where
  "toLowerCase s =
     map (\<lambda>c. case map_of (zip ''ABCDEFGHIJKLMNOPQRSTUVWXYZ'' ''abcdefghijklmnopqrstuvwxyz'') c of
                 Some l \<Rightarrow> l
               | None \<Rightarrow> c) s"

definition slashedProtocol :: "string list" where
  "slashedProtocol = [''http:'', ''https:'', ''ftp:'', ''gopher:'', ''file:'']"

definition node_parse :: "string \<Rightarrow> Url" where
  "node_parse s =
     (let proto = takeWhile (\<lambda>c. c \<noteq> CHR '':'') s;
          rest = drop (length proto + 1) s
      in if proto \<noteq> [] \<and> length proto < length s \<and> take 2 rest = ''//'' then
           (let rest2 = drop 2 rest;
                hostPort = takeWhile (\<lambda>c. c \<noteq> CHR ''/'') rest2;
                path = dropWhile (\<lambda>c. c \<noteq> CHR ''/'') rest2;
                name = toLowerCase (takeWhile (\<lambda>c. c \<noteq> CHR '':'') hostPort);
                prt = drop (length name + 1) hostPort;
                lowerProto = toLowerCase proto @ '':''
            in \<lparr>protocol = Some lowerProto,
                slashes = True,
                auth = None,
                host = Some (name @ (if prt = [] then [] else '':'' @ prt)),
                port = (if prt = [] then None else Some prt),
                hostname = Some name,
                pathname = (if path \<noteq> [] then Some path
                            else if lowerProto \<in> set slashedProtocol \<and> name \<noteq> [] then Some ''/''
                            else None),
                search = None,
                hash = None\<rparr>)
         else \<lparr>protocol = None, slashes = False, auth = None, host = None, port = None,
               hostname = None, pathname = (if s = [] then None else Some s),
               search = None, hash = None\<rparr>)"

definition orEmpty :: "string option \<Rightarrow> string" where
  "orEmpty v = (case v of None \<Rightarrow> [] | Some s \<Rightarrow> s)"

definition node_format :: "Url \<Rightarrow> string" where
  "node_format u =
     (let proto = orEmpty (protocol u);
          proto = (if proto \<noteq> [] \<and> last proto \<noteq> CHR '':'' then proto @ '':'' else proto);
          hst = (if truthy (host u) then Some (orEmpty (host u))
                 else if truthy (hostname u) then
                   Some (orEmpty (hostname u) @
                         (if truthy (Url.port u) then '':'' @ orEmpty (Url.port u) else []))
                 else None);
          path = orEmpty (pathname u);
          slashed = (slashes u \<or> ((proto = [] \<or> proto \<in> set slashedProtocol) \<and> hst \<noteq> None));
          hostPart = (if slashed then ''//'' @ orEmpty hst else orEmpty hst);
          pathPart = (if slashed \<and> path \<noteq> [] \<and> hd path \<noteq> CHR ''/'' then ''/'' @ path else path)
      in proto @ hostPart @ pathPart @ orEmpty (search u) @ orEmpty (hash u))"

subsection \<open>Observations on events and calls\<close>

text \<open>
  The calls of the success callback made for a request, each with the function called
  and its argument, and the arguments of the calls of its error callback.
\<close>

definition callbacks :: "request_ref \<Rightarrow> action list \<Rightarrow> (fn_ref \<times> CreateProxyResponse) list" where
  "callbacks r acts =
     concat (map (\<lambda>a. case a of Callback r' f x \<Rightarrow> (if r' = r then [(f, x)] else []) | _ \<Rightarrow> [])
               acts)"

definition errorCallbacks :: "request_ref \<Rightarrow> action list \<Rightarrow> string list" where
  "errorCallbacks r acts =
     concat (map (\<lambda>a. case a of ErrorCallback r' f x \<Rightarrow> (if r' = r then [x] else []) | _ \<Rightarrow> [])
               acts)"

text \<open>The error callback of \<open>r\<close> is called somewhere after its success callback.\<close>

fun errorAfterReady :: "request_ref \<Rightarrow> action list \<Rightarrow> bool" where
  "errorAfterReady r [] = False"
| "errorAfterReady r (a # as) =
     ((callbacks r [a] \<noteq> [] \<and> errorCallbacks r as \<noteq> []) \<or> errorAfterReady r as)"

text \<open>The bytes written to an upstream request and to a local socket, in order.\<close>

definition upstreamWrites :: "request_ref \<Rightarrow> action list \<Rightarrow> Buffer list" where
  "upstreamWrites r acts =
     concat (map (\<lambda>a. case a of WriteSocket r' d \<Rightarrow> (if r' = r then [d] else []) | _ \<Rightarrow> []) acts)"

definition localWrites :: "socket_ref \<Rightarrow> action list \<Rightarrow> Buffer list" where
  "localWrites conn acts =
     concat (map (\<lambda>a. case a of ConnWrite c d \<Rightarrow> (if c = conn then [d] else []) | _ \<Rightarrow> []) acts)"

text \<open>The bytes that arrive from a local socket and from a response stream, in order.\<close>

definition fromLocal :: "socket_ref \<Rightarrow> event list \<Rightarrow> Buffer list" where
  "fromLocal conn es =
     concat (map (\<lambda>e. case e of OnConnData c d \<Rightarrow> (if c = conn then [d] else []) | _ \<Rightarrow> []) es)"

definition fromUpstream :: "response_ref \<Rightarrow> event list \<Rightarrow> Buffer list" where
  "fromUpstream resp es =
     concat (map (\<lambda>e. case e of OnResponseData r d \<Rightarrow> (if r = resp then [d] else []) | _ \<Rightarrow> [])
               es)"

fun isData :: "event \<Rightarrow> bool" where
  "isData (OnConnData conn d) = True"
| "isData (OnResponseData resp d) = True"
| "isData _ = False"

text \<open>
  The \<open>requestSocketConnected\<close> events of a request, and the servers of the
  \<open>listening\<close> events, in a list of events.
\<close>

definition connectedEvents :: "request_ref \<Rightarrow> event list \<Rightarrow> event list" where
  "connectedEvents r es =
     filter (\<lambda>e. case e of OnRequestSocketConnected r' resp \<Rightarrow> r' = r | _ \<Rightarrow> False) es"

definition listeningServers :: "event list \<Rightarrow> server_ref list" where
  "listeningServers es = concat (map (\<lambda>e. case e of OnListening s p \<Rightarrow> [s] | _ \<Rightarrow> []) es)"

text \<open>
  The ports of the \<open>listening\<close> events that belong to the request \<open>r\<close>, in the order of
  the events. Request objects and servers are numbered in the order of their creation:
  \<open>n\<close> counts the calls of \<open>createChromiumSocket\<close> so far, and \<open>ow\<close> has, for every server
  so far, the request object whose \<open>requestSocketConnected\<close> event started it. A
  \<open>listening\<close> event belongs to \<open>r\<close> when its server exists and was started for \<open>r\<close>.
\<close>

fun listeningPorts :: "request_ref \<Rightarrow> nat \<Rightarrow> request_ref list \<Rightarrow> event list \<Rightarrow> nat list" where
  "listeningPorts r n ow [] = []"
| "listeningPorts r n ow (e # es) =
     (case e of
        CallCreateChromiumSocket rq \<Rightarrow> listeningPorts r (Suc n) ow es
      | OnRequestSocketConnected q resp \<Rightarrow>
          listeningPorts r n (if q < n then ow @ [q] else ow) es
      | OnListening s p \<Rightarrow>
          (if s < length ow \<and> ow ! s = r then [p] else []) @ listeningPorts r n ow es
      | _ \<Rightarrow> listeningPorts r n ow es)"

text \<open>
  What holds of every state the module reaches: a request object is the index of its
  session; the closure given to a proxy is that of a session; the listener sets
  recorded in \<open>relays\<close> are those of the proxies that accepted a connection, one for
  each; and the registry maps a URL to a request created for that URL.
\<close>

definition consistent :: "state \<Rightarrow> bool" where
  "consistent st \<longleftrightarrow>
     (\<forall>i < length (requests st). request (requests st ! i) = i) \<and>
     (\<forall>s < length (servers st). proxyCallback (servers st ! s) \<in> set (requests st)) \<and>
     (\<forall>s c. (s, c) \<in> set (relays st) \<longleftrightarrow>
              s < length (servers st) \<and> clientConn (servers st ! s) = Some c) \<and>
     distinct (map fst (relays st)) \<and>
     (\<forall>u r. requestMap st u = Some r \<longrightarrow>
              r < length (requests st) \<and> CreateProxyRequest.url (req (requests st ! r)) = u)"

text \<open>
  The request objects that own the proxies, the requests submitted by the events of a
  list, and the fact that every session keeps the parse of its requested URL.
\<close>

definition owners :: "state \<Rightarrow> request_ref list" where
  "owners st = map (\<lambda>p. request (proxyCallback p)) (servers st)"

definition submitted :: "event list \<Rightarrow> CreateProxyRequest list" where
  "submitted es =
     concat (map (\<lambda>e. case e of CallCreateChromiumSocket rq \<Rightarrow> [rq] | _ \<Rightarrow> []) es)"

definition parsed :: "(string \<Rightarrow> Url) \<Rightarrow> state \<Rightarrow> bool" where
  "parsed pu st \<longleftrightarrow>
     (\<forall>c \<in> set (requests st). Session.originalUrl c = pu (CreateProxyRequest.url (req c)))"

subsection \<open>Example runs\<close>

text \<open>
  A request for \<open>rtmp://example.com:443/stream\<close> with both callbacks, the upstream
  connection and the local server reporting port 8080.
\<close>

definition streamUrl :: Url where
  "streamUrl = \<lparr>protocol = Some ''rtmp:'', slashes = True, auth = None,
      host = Some ''example.com:443'', port = Some ''443'', hostname = Some ''example.com'',
      pathname = Some ''/stream'', search = None, hash = None\<rparr>"

definition streamRequest :: CreateProxyRequest where
  "streamRequest = \<lparr>CreateProxyRequest.url = ''rtmp://example.com:443/stream'',
      callback = 0, errorCallback = Some 1\<rparr>"

definition readyEvents :: "event list" where
  "readyEvents =
     [CallCreateChromiumSocket streamRequest, OnRequestSocketConnected 0 0, OnListening 0 8080]"

definition readyState :: state where
  "readyState =
     \<lparr>requestMap = [''rtmp://example.com:443/stream'' \<mapsto> 0],
      requests = [\<lparr>request = 0, req = streamRequest, originalUrl = streamUrl\<rparr>],
      servers = [\<lparr>proxyCallback = \<lparr>request = 0, req = streamRequest, originalUrl = streamUrl\<rparr>,
                  response = 0, clientConn = None\<rparr>],
      relays = []\<rparr>"

text \<open>A request for \<open>http://host\<close>, a URL that \<open>format\<close> does not give back as it was.\<close>

definition bareHostEvents :: "event list" where
  "bareHostEvents =
     [CallCreateChromiumSocket
        \<lparr>CreateProxyRequest.url = ''http://host'', callback = 0, errorCallback = None\<rparr>,
      OnRequestSocketConnected 0 0, OnListening 0 8080]"

text \<open>
  A run in which the upstream request emits \<open>requestSocketConnected\<close> twice: two servers
  are started for request 0, and each reports its port.
\<close>

definition twiceConnectedEvents :: "event list" where
  "twiceConnectedEvents =
     [CallCreateChromiumSocket streamRequest, OnRequestSocketConnected 0 0,
      OnRequestSocketConnected 0 1, OnListening 0 8080, OnListening 1 8081]"

text \<open>The same run with a local connection, socket 3, accepted by the server.\<close>

definition relayEvents :: "event list" where
  "relayEvents = readyEvents @ [OnConnection 0 3]"

definition relayState :: state where
  "relayState =
     \<lparr>requestMap = [''rtmp://example.com:443/stream'' \<mapsto> 0],
      requests = [\<lparr>request = 0, req = streamRequest, originalUrl = streamUrl\<rparr>],
      servers = [\<lparr>proxyCallback = \<lparr>request = 0, req = streamRequest, originalUrl = streamUrl\<rparr>,
                  response = 0, clientConn = Some 3\<rparr>],
      relays = [(0, 3)]\<rparr>"

text \<open>
  A request whose URL is the string \<open>__proto__\<close>, and calls of
  \<open>authenticateChromiumSocket\<close> for that URL and for the name \<open>constructor\<close>.
\<close>

definition protoRequest :: CreateProxyRequest where
  "protoRequest = \<lparr>CreateProxyRequest.url = ''__proto__'', callback = 0,
      errorCallback = Some 1\<rparr>"

definition protoAuth :: AuthProxyRequest where
  "protoAuth = \<lparr>AuthProxyRequest.url = ''__proto__'', username = ''user'',
      password = ''secret''\<rparr>"

definition constructorAuth :: AuthProxyRequest where
  "constructorAuth = \<lparr>AuthProxyRequest.url = ''constructor'', username = ''user'',
      password = ''secret''\<rparr>"

text \<open>A request for a scheme that the protocol table does not list.\<close>

definition ftpRequest :: CreateProxyRequest where
  "ftpRequest = \<lparr>CreateProxyRequest.url = ''ftp://files.example.com/pub'', callback = 0,
      errorCallback = None\<rparr>"

section \<open>Properties\<close>

subsection \<open>Evaluation lemmas\<close>

lemmas url_model_defs =
  node_format_def node_parse_def toLowerCase_def slashedProtocol_def orEmpty_def truthy_def

lemmas model_defs =
  step.simps createChromiumSocket_def remapProtocol_def onRequestSocketConnected_def
  startProxyConnection_def onSocketAuthRequired_def onRequestError_def onRequestClose_def
  onConnection_def onConnData_def onConnClose_def onResponseData_def onResponseError_def
  onListening_def onServerClose_def onServerError_def authenticateChromiumSocket_def
  getProperty_def deleteProperty_def onSocket_def init_def Let_def

lemma ProtocolMap_simps:
  "ProtocolMap ''rtmp:'' = Some \<lparr>RequestProtocol.port = 1935, secureProtocol = Some ''rtmps:'',
                                 chromiumProtocol = Some ''http:''\<rparr>"
  "ProtocolMap ''rtmps:'' = Some \<lparr>RequestProtocol.port = 443, secureProtocol = None,
                                  chromiumProtocol = Some ''https:''\<rparr>"
  "ProtocolMap ''http:'' = Some \<lparr>RequestProtocol.port = 80, secureProtocol = Some ''https:'',
                                 chromiumProtocol = None\<rparr>"
  "ProtocolMap ''https:'' = Some \<lparr>RequestProtocol.port = 443, secureProtocol = None,
                                  chromiumProtocol = None\<rparr>"
  by (simp_all add: ProtocolMap_def)

lemma ProtocolMap_dom:
  "ProtocolMap p \<noteq> None \<longleftrightarrow> p \<in> {''rtmp:'', ''rtmps:'', ''http:'', ''https:''}"
  by (auto simp: ProtocolMap_def)

subsection \<open>Runs and reachable states\<close>

lemma fst_run_Cons:
  "fst (run pu fu st (e # es)) = fst (run pu fu (fst (step pu fu st e)) es)"
  by (simp add: case_prod_beta)

lemma snd_run_Cons:
  "snd (run pu fu st (e # es)) =
   snd (step pu fu st e) @ snd (run pu fu (fst (step pu fu st e)) es)"
  by (simp add: case_prod_beta)

declare step.simps [simp del] run.simps(2) [simp del] fst_run_Cons [simp] snd_run_Cons [simp]

lemma consistent_init: "consistent init"
  by (simp add: consistent_def init_def)

lemma consistent_create:
  "consistent st \<Longrightarrow> consistent (fst (createChromiumSocket pu fu rq st))"
  by (auto simp: consistent_def createChromiumSocket_def Let_def nth_append less_Suc_eq
           split: prod.splits if_splits)

lemma consistent_connected:
  "consistent st \<Longrightarrow> r < length (requests st) \<Longrightarrow>
   consistent (fst (onRequestSocketConnected (requests st ! r) resp st))"
  by (auto simp: consistent_def onRequestSocketConnected_def startProxyConnection_def Let_def
           nth_append split: prod.splits if_splits)

lemma consistent_close:
  "consistent st \<Longrightarrow> consistent (fst (onRequestClose c st))"
  by (auto simp: consistent_def onRequestClose_def deleteProperty_def split: if_splits)

lemma consistent_connection:
  "consistent st \<Longrightarrow> s < length (servers st) \<Longrightarrow> consistent (fst (onConnection s conn st))"
  by (cases "clientConn (servers st ! s)")
     (auto simp: consistent_def onConnection_def nth_list_update split: if_splits)

lemma authenticate_state: "fst (step pu fu st (CallAuthenticateChromiumSocket rq)) = st"
  by (simp add: step.simps authenticateChromiumSocket_def split: jsvalue.splits)

lemma consistent_step: "consistent st \<Longrightarrow> consistent (fst (step pu fu st e))"
  by (cases e)
     (simp_all add: step.simps(1,3-17) authenticate_state consistent_create consistent_connected
        consistent_close consistent_connection)

lemma consistent_run: "consistent st \<Longrightarrow> consistent (fst (run pu fu st es))"
proof (induction es arbitrary: st)
  case Nil
  then show ?case by simp
next
  case (Cons e es)
  from Cons.prems have "consistent (fst (step pu fu st e))"
    by (rule consistent_step)
  then have "consistent (fst (run pu fu (fst (step pu fu st e)) es))"
    by (rule Cons.IH)
  then show ?case
    by simp
qed

lemma reachable_consistent: "run pu fu init es = (st, acts) \<Longrightarrow> consistent st"
  using consistent_run [OF consistent_init, of pu fu es] by simp

subsection \<open>Evaluation of the example runs\<close>

lemma parse_stream: "node_parse ''rtmp://example.com:443/stream'' = streamUrl"
  by (simp add: url_model_defs streamUrl_def Let_def)

lemma format_stream: "node_format streamUrl = ''rtmp://example.com:443/stream''"
  by (simp add: url_model_defs streamUrl_def Let_def)

lemma format_stream_mapped:
  "node_format (streamUrl\<lparr>protocol := Some ''https:''\<rparr>) = ''https://example.com:443/stream''"
  by (simp add: url_model_defs streamUrl_def Let_def)

lemma stream_fields:
  "protocol streamUrl = Some ''rtmp:''" "Url.port streamUrl = Some ''443''"
  "CreateProxyRequest.url streamRequest = ''rtmp://example.com:443/stream''"
  "callback streamRequest = 0" "errorCallback streamRequest = Some 1"
  by (simp_all add: streamUrl_def streamRequest_def)

lemmas stream_simps = parse_stream format_stream format_stream_mapped stream_fields

lemma readyEvents_run:
  "run node_parse node_format init readyEvents =
     (readyState,
      [WriteToLog ''applying secure protocol: '', WriteToLog ''mapped URL: '',
       NetRequest 0 ''https://example.com:443/stream'', CreateConnection 0,
       WriteToLog ''requestSocketConnected'', CreateServer 0, SetMaxConnections 0 1,
       ServerListen 0 0 ''localhost'',
       WriteToLog ''proxy server info '',
       Callback 0 0 \<lparr>success = True,
                      data = Some \<lparr>ProxyData.port = 8080,
                                   originalUrl = ''rtmp://example.com:443/stream''\<rparr>\<rparr>])"
  by (simp add: readyEvents_def readyState_def run.simps(2) model_defs ProtocolMap_simps
      truthy_def stream_simps)

lemma readyEvents_run_eq:
  "run node_parse node_format init readyEvents =
     (readyState, snd (run node_parse node_format init readyEvents))"
  by (simp add: readyEvents_run)

subsection \<open>The remapping step\<close>

lemma remapProtocol_rtmp_443:
  "protocol u = Some ''rtmp:'' \<Longrightarrow> Url.port u = Some ''443'' \<Longrightarrow>
   fst (remapProtocol u u) = u\<lparr>protocol := Some ''https:''\<rparr>"
  by (simp add: remapProtocol_def ProtocolMap_simps truthy_def)

lemma rtmp_443_example:
  "snd (createChromiumSocket node_parse node_format
          \<lparr>CreateProxyRequest.url = ''rtmp://example.com:443/stream'', callback = 0,
           errorCallback = None\<rparr> init)
     = [WriteToLog ''applying secure protocol: '', WriteToLog ''mapped URL: '',
        NetRequest 0 ''https://example.com:443/stream'', CreateConnection 0]"
  by (simp add: createChromiumSocket_def remapProtocol_def ProtocolMap_simps url_model_defs
      init_def Let_def)

text \<open>
  C1, as the code has it. For every scheme of the table that has both a
  \<open>chromiumProtocol\<close> and a \<open>secureProtocol\<close>, the remapping step applied to a URL with port
  443 gives the transport URL the \<open>chromiumProtocol\<close> of the secure variant, which is
  \<open>https:\<close>. The scheme \<open>rtmp:\<close> is the one scheme of the table with both.
\<close>

theorem secure_port_uses_secure_transport:
  assumes "protocol u = Some p" and "ProtocolMap p = Some e"
    and "truthy (chromiumProtocol e)" and "truthy (secureProtocol e)"
    and "Url.port u = Some ''443''"
  shows "\<exists>sp secure. secureProtocol e = Some sp \<and> ProtocolMap sp = Some secure \<and>
           chromiumProtocol secure = Some ''https:'' \<and>
           fst (remapProtocol u u) = u\<lparr>protocol := chromiumProtocol secure\<rparr>"
proof -
  from assms(2) have "p \<in> {''rtmp:'', ''rtmps:'', ''http:'', ''https:''}"
    using ProtocolMap_dom [of p] by simp
  with assms(2,3,4) have p: "p = ''rtmp:''"
    by (auto simp: ProtocolMap_simps truthy_def)
  with assms(2) have e: "e = \<lparr>RequestProtocol.port = 1935, secureProtocol = Some ''rtmps:'',
                              chromiumProtocol = Some ''http:''\<rparr>"
    by (simp add: ProtocolMap_simps)
  have "fst (remapProtocol u u) = u\<lparr>protocol := Some ''https:''\<rparr>"
    using assms(1,5) p by (simp add: remapProtocol_rtmp_443)
  with e show ?thesis
    by (simp add: ProtocolMap_simps)
qed

text \<open>The theorem for \<open>rtmp://example.com:443/stream\<close>, sent over \<open>https:\<close>.\<close>

theorem secure_port_uses_secure_transport_witness:
  "protocol streamUrl = Some ''rtmp:'' \<and> Url.port streamUrl = Some ''443'' \<and>
   fst (remapProtocol streamUrl streamUrl) = streamUrl\<lparr>protocol := Some ''https:''\<rparr> \<and>
   node_format (fst (remapProtocol streamUrl streamUrl)) = ''https://example.com:443/stream''"
proof -
  have e: "ProtocolMap ''rtmp:'' =
             Some \<lparr>RequestProtocol.port = 1935, secureProtocol = Some ''rtmps:'',
                   chromiumProtocol = Some ''http:''\<rparr>"
    by (simp add: ProtocolMap_simps)
  have t: "truthy (chromiumProtocol \<lparr>RequestProtocol.port = 1935, secureProtocol = Some ''rtmps:'',
                   chromiumProtocol = Some ''http:''\<rparr>)"
    "truthy (secureProtocol \<lparr>RequestProtocol.port = 1935, secureProtocol = Some ''rtmps:'',
                   chromiumProtocol = Some ''http:''\<rparr>)"
    by (simp_all add: truthy_def)
  from secure_port_uses_secure_transport [OF stream_fields(1) e t stream_fields(2)]
  have "fst (remapProtocol streamUrl streamUrl) = streamUrl\<lparr>protocol := Some ''https:''\<rparr>"
    by auto
  then show ?thesis
    by (simp add: stream_fields format_stream_mapped)
qed

text \<open>
  The entry for \<open>http:\<close> has no \<open>chromiumProtocol\<close>, so the test of line 74 fails and the
  test for port 443 on line 77, nested inside it, is not reached for \<open>http:\<close>.
\<close>

lemma remapProtocol_http:
  "protocol u = Some ''http:'' \<Longrightarrow> remapProtocol u u = (u, [])"
  by (simp add: remapProtocol_def ProtocolMap_simps truthy_def)

text \<open>
  C1, as stated, fails for \<open>http://host:443/\<close>: the scheme \<open>http:\<close> has the secure variant
  \<open>https:\<close> in the table and the parsed port is \<open>443\<close>, yet the protocol after the
  remapping step is still \<open>http:\<close> and the request is opened on \<open>http://host:443/\<close>.
\<close>

theorem http_443_keeps_plain_protocol:
  "map_option secureProtocol (ProtocolMap ''http:'') = Some (Some ''https:'') \<and>
   Url.port (node_parse ''http://host:443/'') = Some ''443'' \<and>
   protocol (fst (remapProtocol (node_parse ''http://host:443/'')
                                (node_parse ''http://host:443/''))) = Some ''http:'' \<and>
   snd (createChromiumSocket node_parse node_format
          \<lparr>CreateProxyRequest.url = ''http://host:443/'', callback = 0, errorCallback = None\<rparr>
          init)
     = [WriteToLog ''mapped URL: '', NetRequest 0 ''http://host:443/'', CreateConnection 0]"
  by (simp add: createChromiumSocket_def remapProtocol_def ProtocolMap_simps url_model_defs
      init_def Let_def)

subsection \<open>Errors of the upstream request\<close>

lemma requests_run_request:
  assumes "run pu fu init es = (st, acts)" and "r < length (requests st)"
  shows "request (requests st ! r) = r"
  using reachable_consistent [OF assms(1)] assms(2) by (simp add: consistent_def)

text \<open>
  C2, as the code has it. In every state the module reaches, an \<open>error\<close> event of the
  upstream request \<open>r\<close> makes the module close the upstream socket and, whenever the
  caller supplied an error callback, call it with the error. Nothing in the listener
  looks at whether the success callback was called before.
\<close>

theorem request_error_calls_errorCallback:
  assumes "run pu fu init es = (st, acts)" and "r < length (requests st)"
  shows "step pu fu st (OnRequestError r err) =
           (st, [WriteToLog ''proxy socket request error '', CloseSocket r] @
                (case errorCallback (req (requests st ! r)) of
                   Some f \<Rightarrow> [ErrorCallback r f err]
                 | None \<Rightarrow> []))"
proof -
  have "request (requests st ! r) = r"
    using assms by (rule requests_run_request)
  with assms(2) show ?thesis
    by (simp add: step.simps onRequestError_def split: option.splits)
qed

text \<open>
  The theorem at the state reached by \<open>readyEvents\<close>, in which the success callback of
  request 0 has been called: the error callback is called all the same.
\<close>

theorem request_error_calls_errorCallback_witness:
  "callbacks 0 (snd (run node_parse node_format init readyEvents)) \<noteq> [] \<and>
   snd (step node_parse node_format (fst (run node_parse node_format init readyEvents))
          (OnRequestError 0 ''reset'')) =
     [WriteToLog ''proxy socket request error '', CloseSocket 0, ErrorCallback 0 1 ''reset'']"
  using request_error_calls_errorCallback [of node_parse node_format readyEvents
      "fst (run node_parse node_format init readyEvents)"
      "snd (run node_parse node_format init readyEvents)" 0 "''reset''"]
  by (simp add: readyEvents_run readyState_def callbacks_def stream_fields)

text \<open>
  C2, as stated, fails: in the run \<open>readyEvents\<close> followed by an \<open>error\<close> event of the
  upstream request, the error callback of request 0 is called after its success
  callback.
\<close>

theorem error_after_ready_counterexample:
  "errorAfterReady 0
     (snd (run node_parse node_format init (readyEvents @ [OnRequestError 0 ''reset''])))"
  by (simp add: readyEvents_def run.simps(2) model_defs ProtocolMap_simps truthy_def stream_simps
      callbacks_def errorCallbacks_def)

subsection \<open>The success callback\<close>

lemma callbacks_simps [simp]:
  "callbacks r [] = []"
  "callbacks r (xs @ ys) = callbacks r xs @ callbacks r ys"
  "callbacks r (Callback r' f x # as) =
     (if r' = r then (f, x) # callbacks r as else callbacks r as)"
  "callbacks r (WriteToLog m # as) = callbacks r as"
  "callbacks r (NetRequest q u # as) = callbacks r as"
  "callbacks r (CreateConnection q # as) = callbacks r as"
  "callbacks r (WriteSocket q d # as) = callbacks r as"
  "callbacks r (CloseSocket q # as) = callbacks r as"
  "callbacks r (AuthenticateSocket q us pw # as) = callbacks r as"
  "callbacks r (AuthenticateMember q k us pw # as) = callbacks r as"
  "callbacks r (Raise er # as) = callbacks r as"
  "callbacks r (ErrorCallback q f err # as) = callbacks r as"
  "callbacks r (OfEventsEmit t ev # as) = callbacks r as"
  "callbacks r (CreateServer s # as) = callbacks r as"
  "callbacks r (SetMaxConnections s n # as) = callbacks r as"
  "callbacks r (ServerListen s n h # as) = callbacks r as"
  "callbacks r (ServerClose s # as) = callbacks r as"
  "callbacks r (ConnWrite c d # as) = callbacks r as"
  "callbacks r (ConnEnd c # as) = callbacks r as"
  "callbacks r (ConnDestroy c # as) = callbacks r as"
  by (simp_all add: callbacks_def)

lemma callbacks_concat_map:
  "(\<And>x. x \<in> set xs \<Longrightarrow> callbacks r (f x) = []) \<Longrightarrow> callbacks r (concat (map f xs)) = []"
  by (induction xs) simp_all

lemma callbacks_remapProtocol: "callbacks r (snd (remapProtocol u v)) = []"
  by (simp add: remapProtocol_def Let_def split: option.splits)

lemma callbacks_onSocket:
  "(\<And>s. callbacks r (listener s) = []) \<Longrightarrow> callbacks r (onSocket st c listener) = []"
  unfolding onSocket_def by (rule callbacks_concat_map) (simp split: prod.splits)

lemma callbacks_step:
  "callbacks r (snd (step pu fu st e)) =
     (case e of
        OnListening s p \<Rightarrow>
          (if s < length (servers st) \<and> request (proxyCallback (servers st ! s)) = r
           then [(callback (req (proxyCallback (servers st ! s))),
                  \<lparr>success = True,
                   data = Some \<lparr>ProxyData.port = p,
                      originalUrl = fu (Session.originalUrl (proxyCallback (servers st ! s)))\<rparr>\<rparr>)]
           else [])
      | _ \<Rightarrow> [])"
proof (cases e)
  case (CallCreateChromiumSocket rq)
  then show ?thesis
    by (simp add: step.simps createChromiumSocket_def Let_def callbacks_remapProtocol
          split: prod.splits)
       (metis callbacks_remapProtocol snd_conv)
next
  case (OnConnData c d)
  then show ?thesis by (simp add: step.simps callbacks_onSocket onConnData_def)
next
  case (OnResponseData resp d)
  then show ?thesis
    by (simp add: step.simps callbacks_concat_map onResponseData_def split: prod.splits)
next
  case (OnResponseError resp err)
  then show ?thesis
    by (simp add: step.simps callbacks_concat_map onResponseError_def split: option.splits)
qed (simp_all add: step.simps authenticateChromiumSocket_def onRequestSocketConnected_def
      startProxyConnection_def onSocketAuthRequired_def onRequestError_def onRequestClose_def
      onConnection_def onListening_def onServerClose_def onServerError_def onConnClose_def
      callbacks_onSocket Let_def split: option.splits jsvalue.splits)

lemma owners_step:
  "owners (fst (step pu fu st e)) =
     (case e of
        OnRequestSocketConnected r resp \<Rightarrow>
          (if r < length (requests st) then owners st @ [request (requests st ! r)]
           else owners st)
      | _ \<Rightarrow> owners st)"
proof (cases e)
  case (OnConnection s c)
  then show ?thesis
    by (simp add: step.simps owners_def onConnection_def map_update list_update_same_conv
        split: option.splits)
qed (simp_all add: step.simps(1,3-17) authenticate_state owners_def createChromiumSocket_def
      onRequestSocketConnected_def startProxyConnection_def onRequestClose_def Let_def
      split: option.splits prod.splits)

lemma filter_owner_snoc:
  assumes "distinct xs"
  shows "length (filter (\<lambda>s. s < length (ow @ [q]) \<and> (ow @ [q]) ! s = r) xs)
         \<le> length (filter (\<lambda>s. s < length ow \<and> ow ! s = r) xs) + (if q = r then 1 else 0)"
proof -
  let ?P' = "\<lambda>s. s < length (ow @ [q]) \<and> (ow @ [q]) ! s = r"
  let ?P = "\<lambda>s. s < length ow \<and> ow ! s = r"
  have sub: "{x \<in> set xs. ?P' x} \<subseteq> {x \<in> set xs. ?P x} \<union> (if q = r then {length ow} else {})"
    by (auto simp: nth_append less_Suc_eq split: if_splits)
  have "length (filter ?P' xs) = card {x \<in> set xs. ?P' x}"
    using assms by (simp add: distinct_length_filter Int_def conj_commute)
  also have "\<dots> \<le> card ({x \<in> set xs. ?P x} \<union> (if q = r then {length ow} else {}))"
    by (rule card_mono [OF _ sub]) simp
  also have "\<dots> \<le> card {x \<in> set xs. ?P x} + card (if q = r then {length ow} else {})"
    by (rule card_Un_le)
  also have "card {x \<in> set xs. ?P x} = length (filter ?P xs)"
    using assms by (simp add: distinct_length_filter Int_def conj_commute)
  finally show ?thesis
    by (simp split: if_splits)
qed

lemma listeningServers_Cons:
  "listeningServers (e # es) =
     (case e of OnListening s p \<Rightarrow> [s] | _ \<Rightarrow> []) @ listeningServers es"
  by (simp add: listeningServers_def)

lemma connectedEvents_Cons:
  "length (connectedEvents r (e # es)) =
     (case e of OnRequestSocketConnected r' resp \<Rightarrow> (if r' = r then 1 else 0) | _ \<Rightarrow> 0)
       + length (connectedEvents r es)"
  by (simp add: connectedEvents_def split: event.splits)

lemma callbacks_bound:
  assumes "consistent st" and "distinct (listeningServers es)"
  shows "length (callbacks r (snd (run pu fu st es)))
         \<le> length (filter (\<lambda>s. s < length (owners st) \<and> owners st ! s = r) (listeningServers es))
           + length (connectedEvents r es)"
  using assms
proof (induction es arbitrary: st)
  case Nil
  then show ?case by simp
next
  case (Cons e es)
  let ?st' = "fst (step pu fu st e)"
  let ?F = "\<lambda>st es. length (filter (\<lambda>s. s < length (owners st) \<and> owners st ! s = r)
                                   (listeningServers es))"
  have cons': "consistent ?st'"
    using Cons.prems(1) by (rule consistent_step)
  have dist': "distinct (listeningServers es)"
    using Cons.prems(2) by (simp add: listeningServers_Cons)
  have IH: "length (callbacks r (snd (run pu fu ?st' es)))
            \<le> ?F ?st' es + length (connectedEvents r es)"
    using cons' dist' by (rule Cons.IH)
  have own: "\<And>s. s < length (servers st) \<Longrightarrow> owners st ! s = request (proxyCallback (servers st ! s))"
    by (simp add: owners_def)
  have len: "length (owners st) = length (servers st)"
    by (simp add: owners_def)
  have stepb: "length (callbacks r (snd (step pu fu st e))) + ?F ?st' es + length (connectedEvents r es)
               \<le> ?F st (e # es) + length (connectedEvents r (e # es))"
  proof (cases e)
    case (OnListening s p)
    then show ?thesis
      using callbacks_step [of r pu fu st e] owners_step [of pu fu st e]
      by (auto simp add: listeningServers_Cons connectedEvents_Cons own len)
  next
    case (OnRequestSocketConnected r' resp)
    show ?thesis
    proof (cases "r' < length (requests st)")
      case True
      have "request (requests st ! r') = r'"
        using Cons.prems(1) True by (simp add: consistent_def)
      with True OnRequestSocketConnected filter_owner_snoc [OF dist', of "owners st" r' r]
      show ?thesis
        using callbacks_step [of r pu fu st e] owners_step [of pu fu st e]
        by (simp add: listeningServers_Cons connectedEvents_Cons)
    next
      case False
      with OnRequestSocketConnected show ?thesis
        using callbacks_step [of r pu fu st e] owners_step [of pu fu st e]
        by (simp add: listeningServers_Cons connectedEvents_Cons)
    qed
  qed (use callbacks_step [of r pu fu st e] owners_step [of pu fu st e] in
       \<open>simp_all add: listeningServers_Cons connectedEvents_Cons\<close>)
  have "length (callbacks r (snd (run pu fu st (e # es))))
        = length (callbacks r (snd (step pu fu st e))) + length (callbacks r (snd (run pu fu ?st' es)))"
    by (simp only: snd_run_Cons callbacks_simps length_append)
  with IH stepb show ?case
    by linarith
qed

lemma requests_step:
  "requests (fst (step pu fu st e)) =
     (case e of
        CallCreateChromiumSocket rq \<Rightarrow>
          requests st @ [\<lparr>request = length (requests st), req = rq,
                           originalUrl = pu (CreateProxyRequest.url rq)\<rparr>]
      | _ \<Rightarrow> requests st)"
  by (cases e)
     (simp_all add: step.simps(1,3-17) authenticate_state createChromiumSocket_def
        onRequestSocketConnected_def startProxyConnection_def onRequestClose_def
        onConnection_def Let_def split: option.splits prod.splits)

lemma requests_step_mono: "set (requests st) \<subseteq> set (requests (fst (step pu fu st e)))"
  by (cases e) (auto simp: requests_step)

lemma requests_run_mono: "set (requests st) \<subseteq> set (requests (fst (run pu fu st es)))"
proof (induction es arbitrary: st)
  case Nil
  show ?case by simp
next
  case (Cons e es)
  have "set (requests st) \<subseteq> set (requests (fst (step pu fu st e)))"
    by (rule requests_step_mono)
  also have "\<dots> \<subseteq> set (requests (fst (run pu fu (fst (step pu fu st e)) es)))"
    by (rule Cons.IH)
  finally show ?case
    by (simp only: fst_run_Cons)
qed

lemma parsed_step: "parsed pu st \<Longrightarrow> parsed pu (fst (step pu fu st e))"
  by (cases e) (auto simp: parsed_def requests_step)

lemma owners_servers:
  "length (owners st) = length (servers st)"
  "s < length (servers st) \<Longrightarrow> owners st ! s = request (proxyCallback (servers st ! s))"
  by (simp_all add: owners_def)

lemma owners_run_prefix: "\<exists>more. owners (fst (run pu fu st es)) = owners st @ more"
proof (induction es arbitrary: st)
  case Nil
  show ?case by simp
next
  case (Cons e es)
  have "\<exists>m1. owners (fst (step pu fu st e)) = owners st @ m1"
    by (cases e) (simp_all add: owners_step)
  then obtain m1 where "owners (fst (step pu fu st e)) = owners st @ m1"
    by blast
  moreover obtain m2 where
    "owners (fst (run pu fu (fst (step pu fu st e)) es)) = owners (fst (step pu fu st e)) @ m2"
    using Cons.IH by blast
  ultimately show ?case
    by simp
qed

lemma owner_run_nth:
  assumes "s < length (servers st)"
  shows "s < length (servers (fst (run pu fu st es))) \<and>
         request (proxyCallback (servers (fst (run pu fu st es)) ! s)) =
           request (proxyCallback (servers st ! s))"
proof -
  obtain more where more: "owners (fst (run pu fu st es)) = owners st @ more"
    using owners_run_prefix by blast
  have "length (servers (fst (run pu fu st es))) = length (owners st @ more)"
    using more owners_servers(1) [of "fst (run pu fu st es)"] by simp
  with assms have len: "s < length (servers (fst (run pu fu st es)))"
    by (simp add: owners_servers(1))
  have "owners (fst (run pu fu st es)) ! s = owners st ! s"
    using more assms by (simp add: nth_append owners_servers(1))
  with len assms show ?thesis
    by (simp add: owners_servers(2))
qed

lemma requests_run_prefix: "\<exists>more. requests (fst (run pu fu st es)) = requests st @ more"
proof (induction es arbitrary: st)
  case Nil
  show ?case by simp
next
  case (Cons e es)
  obtain m1 where "requests (fst (step pu fu st e)) = requests st @ m1"
    by (cases e) (simp_all add: requests_step)
  moreover obtain m2 where
    "requests (fst (run pu fu (fst (step pu fu st e)) es)) = requests (fst (step pu fu st e)) @ m2"
    using Cons.IH by blast
  ultimately show ?case
    by simp
qed

lemma requests_run_nth:
  assumes "r < length (requests st)"
  shows "r < length (requests (fst (run pu fu st es))) \<and>
         requests (fst (run pu fu st es)) ! r = requests st ! r"
proof -
  obtain more where "requests (fst (run pu fu st es)) = requests st @ more"
    using requests_run_prefix by blast
  with assms show ?thesis
    by (simp add: nth_append)
qed

text \<open>The closure that a proxy was given is the session of the request that owns it.\<close>

lemma session_of_owner:
  assumes "consistent st" and "s < length (servers st)"
  shows "request (proxyCallback (servers st ! s)) < length (requests st) \<and>
         proxyCallback (servers st ! s) =
           requests st ! request (proxyCallback (servers st ! s))"
proof -
  from assms have "proxyCallback (servers st ! s) \<in> set (requests st)"
    by (simp add: consistent_def)
  then obtain i where i: "i < length (requests st)"
    and c: "requests st ! i = proxyCallback (servers st ! s)"
    by (auto simp: in_set_conv_nth)
  from assms(1) i have "request (requests st ! i) = i"
    by (simp add: consistent_def)
  with i c show ?thesis
    by simp
qed

lemma callbacks_run_payload:
  assumes "consistent st" and "parsed pu st" and "x \<in> set (callbacks r (snd (run pu fu st es)))"
  shows "\<exists>p s c. OnListening s p \<in> set es \<and>
           s < length (servers (fst (run pu fu st es))) \<and>
           request (proxyCallback (servers (fst (run pu fu st es)) ! s)) = r \<and>
           c \<in> set (requests (fst (run pu fu st es))) \<and>
           request c = r \<and>
           x = (callback (req c),
                \<lparr>success = True,
                 data = Some \<lparr>ProxyData.port = p,
                              originalUrl = fu (pu (CreateProxyRequest.url (req c)))\<rparr>\<rparr>)"
  using assms
proof (induction es arbitrary: st)
  case Nil
  then show ?case by simp
next
  case (Cons e es)
  let ?st' = "fst (step pu fu st e)"
  from Cons.prems(3)
  consider (now) "x \<in> set (callbacks r (snd (step pu fu st e)))"
    | (later) "x \<in> set (callbacks r (snd (run pu fu ?st' es)))"
    by (auto simp only: snd_run_Cons callbacks_simps set_append)
  then show ?case
  proof cases
    case now
    then obtain s p where e: "e = OnListening s p" and s: "s < length (servers st)"
      and r: "request (proxyCallback (servers st ! s)) = r"
      and x: "x = (callback (req (proxyCallback (servers st ! s))),
                   \<lparr>success = True,
                    data = Some \<lparr>ProxyData.port = p,
                       originalUrl =
                         fu (Session.originalUrl (proxyCallback (servers st ! s)))\<rparr>\<rparr>)"
      using callbacks_step [of r pu fu st e]
      by (cases e) (auto split: if_splits)
    let ?c = "proxyCallback (servers st ! s)"
    have c: "?c \<in> set (requests st)"
      using Cons.prems(1) s by (simp add: consistent_def)
    then have "Session.originalUrl ?c = pu (CreateProxyRequest.url (req ?c))"
      using Cons.prems(2) by (simp add: parsed_def)
    moreover have "?c \<in> set (requests (fst (run pu fu st (e # es))))"
      using c requests_run_mono by blast
    moreover have "s < length (servers (fst (run pu fu st (e # es)))) \<and>
        request (proxyCallback (servers (fst (run pu fu st (e # es))) ! s)) = r"
      using owner_run_nth [OF s, of pu fu "e # es"] r by simp
    ultimately show ?thesis
      using e r x by (intro exI [of _ p] exI [of _ s] exI [of _ ?c]) simp
  next
    case later
    have "consistent ?st'" using Cons.prems(1) by (rule consistent_step)
    moreover have "parsed pu ?st'" using Cons.prems(2) by (rule parsed_step)
    ultimately obtain p s c where "OnListening s p \<in> set es"
      "s < length (servers (fst (run pu fu ?st' es)))"
      "request (proxyCallback (servers (fst (run pu fu ?st' es)) ! s)) = r"
      "c \<in> set (requests (fst (run pu fu ?st' es)))" "request c = r"
      "x = (callback (req c),
            \<lparr>success = True,
             data = Some \<lparr>ProxyData.port = p,
                          originalUrl = fu (pu (CreateProxyRequest.url (req c)))\<rparr>\<rparr>)"
      using Cons.IH later by blast
    then show ?thesis
      by (auto simp only: fst_run_Cons set_simps)
  qed
qed

text \<open>
  The calls of the success callback of \<open>r\<close> in a run are the answers to the \<open>listening\<close>
  events that belong to \<open>r\<close>, one for each and in their order.
\<close>

lemma callbacks_run_exact:
  assumes "consistent st" and "parsed pu st"
  shows "callbacks r (snd (run pu fu st es)) =
           map (\<lambda>p. (callback (req (requests (fst (run pu fu st es)) ! r)),
                      \<lparr>success = True,
                       data = Some \<lparr>ProxyData.port = p,
                          originalUrl = fu (pu (CreateProxyRequest.url
                            (req (requests (fst (run pu fu st es)) ! r))))\<rparr>\<rparr>))
               (listeningPorts r (length (requests st)) (owners st) es)"
  using assms
proof (induction es arbitrary: st)
  case Nil
  show ?case by simp
next
  case (Cons e es)
  let ?st' = "fst (step pu fu st e)"
  let ?fin = "fst (run pu fu ?st' es)"
  let ?F = "\<lambda>p. (callback (req (requests ?fin ! r)),
                  \<lparr>success = True,
                   data = Some \<lparr>ProxyData.port = p,
                      originalUrl = fu (pu (CreateProxyRequest.url (req (requests ?fin ! r))))\<rparr>\<rparr>)"
  have cons': "consistent ?st'"
    using Cons.prems(1) by (rule consistent_step)
  have parsed': "parsed pu ?st'"
    using Cons.prems(2) by (rule parsed_step)
  have IH: "callbacks r (snd (run pu fu ?st' es)) =
              map ?F (listeningPorts r (length (requests ?st')) (owners ?st') es)"
    using cons' parsed' by (rule Cons.IH)
  have now: "callbacks r (snd (step pu fu st e)) @
               map ?F (listeningPorts r (length (requests ?st')) (owners ?st') es) =
             map ?F (listeningPorts r (length (requests st)) (owners st) (e # es))"
  proof (cases e)
    case (CallCreateChromiumSocket rq)
    then show ?thesis
      using callbacks_step [of r pu fu st e] owners_step [of pu fu st e]
        requests_step [of pu fu st e]
      by simp
  next
    case (OnRequestSocketConnected q resp)
    have "q < length (requests st) \<Longrightarrow> request (requests st ! q) = q"
      using Cons.prems(1) by (simp add: consistent_def)
    with OnRequestSocketConnected show ?thesis
      using callbacks_step [of r pu fu st e] owners_step [of pu fu st e]
        requests_step [of pu fu st e]
      by simp
  next
    case (OnListening s p)
    have same: "owners ?st' = owners st" "requests ?st' = requests st"
      using OnListening owners_step [of pu fu st e] requests_step [of pu fu st e] by simp_all
    show ?thesis
    proof (cases "s < length (servers st) \<and> request (proxyCallback (servers st ! s)) = r")
      case True
      let ?c = "proxyCallback (servers st ! s)"
      from True session_of_owner [OF Cons.prems(1), of s]
      have r: "r < length (requests st)" and c: "?c = requests st ! r"
        by simp_all
      have "requests st ! r \<in> set (requests st)"
        using r by simp
      then have url: "Session.originalUrl (requests st ! r) =
                        pu (CreateProxyRequest.url (req (requests st ! r)))"
        using Cons.prems(2) by (simp add: parsed_def)
      have "requests ?fin ! r = requests ?st' ! r"
        using requests_run_nth [of r ?st' pu fu es] r same(2) by simp
      then have fin: "requests ?fin ! r = requests st ! r"
        by (simp add: same(2))
      have "callbacks r (snd (step pu fu st e)) = [?F p]"
        using True OnListening callbacks_step [of r pu fu st e] c url fin by simp
      with True OnListening same show ?thesis
        by (simp add: owners_servers)
    next
      case False
      then have "callbacks r (snd (step pu fu st e)) = []"
        using OnListening callbacks_step [of r pu fu st e] by auto
      moreover from False have "\<not> (s < length (owners st) \<and> owners st ! s = r)"
        by (auto simp: owners_servers)
      ultimately show ?thesis
        using OnListening same by simp
    qed
  qed (use callbacks_step [of r pu fu st e] owners_step [of pu fu st e]
        requests_step [of pu fu st e] in simp_all)
  have "callbacks r (snd (run pu fu st (e # es))) =
          callbacks r (snd (step pu fu st e)) @ callbacks r (snd (run pu fu ?st' es))"
    by (simp only: snd_run_Cons callbacks_simps)
  with IH now show ?case
    by (simp only: fst_run_Cons)
qed

lemma callbacks_none:
  assumes "consistent st" and "r \<notin> set (owners st)" and "connectedEvents r es = []"
  shows "callbacks r (snd (run pu fu st es)) = []"
  using assms
proof (induction es arbitrary: st)
  case Nil
  then show ?case by simp
next
  case (Cons e es)
  let ?st' = "fst (step pu fu st e)"
  have ne: "\<And>resp. e \<noteq> OnRequestSocketConnected r resp"
    using Cons.prems(3) by (auto simp: connectedEvents_def)
  have rest: "connectedEvents r es = []"
    using Cons.prems(3) by (simp add: connectedEvents_def split: if_splits)
  have own: "\<And>s. s < length (servers st) \<Longrightarrow> request (proxyCallback (servers st ! s)) \<noteq> r"
    using Cons.prems(2) by (auto simp: owners_def)
  have now: "callbacks r (snd (step pu fu st e)) = []"
    using callbacks_step [of r pu fu st e] own
    by (cases e) simp_all
  have "r \<notin> set (owners ?st')"
  proof (cases e)
    case (OnRequestSocketConnected r' resp)
    with ne have "r' \<noteq> r" by auto
    moreover have "r' < length (requests st) \<Longrightarrow> request (requests st ! r') = r'"
      using Cons.prems(1) by (simp add: consistent_def)
    ultimately show ?thesis
      using OnRequestSocketConnected Cons.prems(2) owners_step [of pu fu st e]
      by auto
  qed (use Cons.prems(2) owners_step [of pu fu st e] in \<open>simp_all\<close>)
  moreover have "consistent ?st'" using Cons.prems(1) by (rule consistent_step)
  ultimately have "callbacks r (snd (run pu fu ?st' es)) = []"
    using rest by (intro Cons.IH)
  with now show ?case
    by (simp only: snd_run_Cons callbacks_simps append_Nil)
qed

lemma submitted_Cons:
  "submitted (e # es) = (case e of CallCreateChromiumSocket rq \<Rightarrow> [rq] | _ \<Rightarrow> []) @ submitted es"
  by (simp add: submitted_def)

lemma requests_run:
  "map req (requests (fst (run pu fu st es))) = map req (requests st) @ submitted es"
proof (induction es arbitrary: st)
  case Nil
  show ?case by (simp add: submitted_def)
next
  case (Cons e es)
  have "map req (requests (fst (step pu fu st e)))
        = map req (requests st) @ (case e of CallCreateChromiumSocket rq \<Rightarrow> [rq] | _ \<Rightarrow> [])"
    by (cases e) (simp_all add: requests_step)
  then show ?case
    by (simp add: Cons.IH submitted_Cons)
qed

lemma requests_reachable:
  assumes "run pu fu init es = (st, acts)"
  shows "map req (requests st) = submitted es"
  using requests_run [of pu fu init es] assms by (simp add: init_def)

lemma parsed_run: "parsed pu st \<Longrightarrow> parsed pu (fst (run pu fu st es))"
  by (induction es arbitrary: st) (simp_all add: parsed_step)

text \<open>
  C3, as the code has it. In a run from the initial state, the calls of the success
  callback of request \<open>r\<close> are the answers to the \<open>listening\<close> events of the servers
  started for \<open>r\<close>, one call for each event and in the order of the events. Every call
  is made on the callback of the request and carries \<open>success: true\<close>, the port reported
  by a \<open>listening\<close> event of a server whose proxy belongs to \<open>r\<close>, and as \<open>originalUrl\<close>
  the requested URL after \<open>parseUrl\<close> and \<open>formatUrl\<close>. The callback is not called when
  no \<open>requestSocketConnected\<close> event arrives for \<open>r\<close>. It is called at most once when
  the upstream request emits \<open>requestSocketConnected\<close> at most once and no server emits
  \<open>listening\<close> twice; the module asks each server to listen once (line 190).
\<close>

theorem callback_contract:
  assumes "run pu fu init es = (st, acts)"
  shows "callbacks r acts =
           map (\<lambda>p. (callback (submitted es ! r),
                      \<lparr>success = True,
                       data = Some \<lparr>ProxyData.port = p,
                          originalUrl = fu (pu (CreateProxyRequest.url (submitted es ! r)))\<rparr>\<rparr>))
               (listeningPorts r 0 [] es) \<and>
         (\<forall>x \<in> set (callbacks r acts).
            r < length (submitted es) \<and>
            (\<exists>p s. OnListening s p \<in> set es \<and>
               s < length (servers st) \<and> request (proxyCallback (servers st ! s)) = r \<and>
               x = (callback (submitted es ! r),
                    \<lparr>success = True,
                     data = Some \<lparr>ProxyData.port = p,
                        originalUrl = fu (pu (CreateProxyRequest.url (submitted es ! r)))\<rparr>\<rparr>))) \<and>
         (connectedEvents r es = [] \<longrightarrow> callbacks r acts = []) \<and>
         (length (connectedEvents r es) \<le> 1 \<and> distinct (listeningServers es) \<longrightarrow>
            length (callbacks r acts) \<le> 1)"
proof -
  have st: "st = fst (run pu fu init es)" and acts: "acts = snd (run pu fu init es)"
    using assms by simp_all
  have cons: "consistent st"
    using assms by (rule reachable_consistent)
  have sub: "map req (requests st) = submitted es"
    using assms by (rule requests_reachable)
  have len: "length (submitted es) = length (requests st)"
    using sub by (metis length_map)
  have own: "owners init = []"
    by (simp add: owners_def init_def)
  have start: "parsed pu init" "length (requests init) = 0"
    by (simp_all add: parsed_def init_def)
  have payload: "r < length (submitted es) \<and>
          (\<exists>p s. OnListening s p \<in> set es \<and>
             s < length (servers st) \<and> request (proxyCallback (servers st ! s)) = r \<and>
             x = (callback (submitted es ! r),
                  \<lparr>success = True,
                   data = Some \<lparr>ProxyData.port = p,
                      originalUrl = fu (pu (CreateProxyRequest.url (submitted es ! r)))\<rparr>\<rparr>))"
    if "x \<in> set (callbacks r acts)" for x
  proof -
    from that obtain p s c where l: "OnListening s p \<in> set es"
      and s: "s < length (servers st)" "request (proxyCallback (servers st ! s)) = r"
      and c: "c \<in> set (requests st)"
      and rc: "request c = r"
      and x: "x = (callback (req c),
                   \<lparr>success = True,
                    data = Some \<lparr>ProxyData.port = p,
                                 originalUrl = fu (pu (CreateProxyRequest.url (req c)))\<rparr>\<rparr>)"
      using callbacks_run_payload [OF consistent_init start(1), of x r fu es]
      unfolding st acts by blast
    from c obtain i where i: "i < length (requests st)" and ci: "requests st ! i = c"
      by (auto simp: in_set_conv_nth)
    with cons rc have "i = r"
      by (auto simp: consistent_def)
    with i ci have r: "r < length (requests st)" and cr: "c = requests st ! r"
      by simp_all
    have "req c = submitted es ! r"
      using sub r cr by (metis nth_map)
    with r len l s x show ?thesis
      by auto
  qed
  have exact: "callbacks r acts =
           map (\<lambda>p. (callback (submitted es ! r),
                      \<lparr>success = True,
                       data = Some \<lparr>ProxyData.port = p,
                          originalUrl = fu (pu (CreateProxyRequest.url (submitted es ! r)))\<rparr>\<rparr>))
               (listeningPorts r 0 [] es)"
  proof (cases "callbacks r acts = []")
    case True
    with callbacks_run_exact [OF consistent_init start(1), of r fu es]
    have "listeningPorts r 0 [] es = []"
      unfolding acts by (simp add: own start(2))
    with True show ?thesis
      by simp
  next
    case False
    then obtain x where "x \<in> set (callbacks r acts)"
      by (cases "callbacks r acts") auto
    then have "r < length (submitted es)"
      using payload by blast
    then have "req (requests st ! r) = submitted es ! r"
      using sub len by (metis nth_map)
    with callbacks_run_exact [OF consistent_init start(1), of r fu es] show ?thesis
      unfolding acts st by (simp add: own start(2))
  qed
  have none: "callbacks r acts = []" if "connectedEvents r es = []"
    using that callbacks_none [of init r es pu fu] consistent_init own
    unfolding acts by simp
  have once: "length (callbacks r acts) \<le> 1"
    if "length (connectedEvents r es) \<le> 1 \<and> distinct (listeningServers es)"
    using that callbacks_bound [of init es r pu fu] consistent_init own
    unfolding acts by simp
  from exact payload none once show ?thesis
    by blast
qed

text \<open>
  The theorem on the run \<open>readyEvents\<close>: one \<open>listening\<close> event belongs to request 0 and
  its callback is called once, with the port of that event; none for a request 1 that
  never connected.
\<close>

theorem callback_contract_witness:
  "listeningPorts 0 0 [] readyEvents = [8080] \<and>
   callbacks 0 (snd (run node_parse node_format init readyEvents)) =
     [(0, \<lparr>success = True,
          data = Some \<lparr>ProxyData.port = 8080,
                       originalUrl = ''rtmp://example.com:443/stream''\<rparr>\<rparr>)] \<and>
   length (connectedEvents 0 readyEvents) \<le> 1 \<and> distinct (listeningServers readyEvents) \<and>
   length (callbacks 0 (snd (run node_parse node_format init readyEvents))) \<le> 1 \<and>
   connectedEvents 1 readyEvents = [] \<and>
   callbacks 1 (snd (run node_parse node_format init readyEvents)) = []"
proof -
  have ports: "listeningPorts 0 0 [] readyEvents = [8080]"
    by (simp add: readyEvents_def)
  have sub: "submitted readyEvents = [streamRequest]"
    by (simp add: readyEvents_def submitted_def)
  have env: "length (connectedEvents 0 readyEvents) \<le> 1" "distinct (listeningServers readyEvents)"
    "connectedEvents 1 readyEvents = []"
    by (simp_all add: readyEvents_def connectedEvents_def listeningServers_def)
  note zero = callback_contract [OF readyEvents_run_eq, of 0]
  note one = callback_contract [OF readyEvents_run_eq, of 1]
  from zero [THEN conjunct1]
  have calls: "callbacks 0 (snd (run node_parse node_format init readyEvents)) =
     [(0, \<lparr>success = True,
          data = Some \<lparr>ProxyData.port = 8080,
                       originalUrl = ''rtmp://example.com:443/stream''\<rparr>\<rparr>)]"
    by (simp add: ports sub stream_simps)
  from zero [THEN conjunct2, THEN conjunct2, THEN conjunct2] env(1,2)
  have once: "length (callbacks 0 (snd (run node_parse node_format init readyEvents))) \<le> 1"
    by blast
  from one [THEN conjunct2, THEN conjunct2, THEN conjunct1] env(3)
  have none: "callbacks 1 (snd (run node_parse node_format init readyEvents)) = []"
    by blast
  from ports calls env once none show ?thesis
    by blast
qed

text \<open>
  C3, as stated, fails on the payload: for the requested URL \<open>http://host\<close> the success
  callback receives \<open>http://host/\<close>, the URL as \<open>format\<close> writes it. It fails on the
  count as well when the upstream request emits \<open>requestSocketConnected\<close> twice: in
  \<open>twiceConnectedEvents\<close> each of the two events starts a server, each server emits
  \<open>listening\<close> once, and the success callback of request 0 is called twice.
\<close>

lemma bareHost_callbacks:
  "callbacks 0 (snd (run node_parse node_format init bareHostEvents)) =
     [(0, \<lparr>success = True,
          data = Some \<lparr>ProxyData.port = 8080, originalUrl = ''http://host/''\<rparr>\<rparr>)]"
  by (simp add: bareHostEvents_def run.simps(2) model_defs ProtocolMap_simps url_model_defs)

lemma twiceConnected_callbacks:
  "callbacks 0 (snd (run node_parse node_format init twiceConnectedEvents)) =
     [(0, \<lparr>success = True,
          data = Some \<lparr>ProxyData.port = 8080,
                       originalUrl = ''rtmp://example.com:443/stream''\<rparr>\<rparr>),
      (0, \<lparr>success = True,
          data = Some \<lparr>ProxyData.port = 8081,
                       originalUrl = ''rtmp://example.com:443/stream''\<rparr>\<rparr>)]"
  by (simp add: twiceConnectedEvents_def run.simps(2) model_defs ProtocolMap_simps truthy_def
      stream_simps)

theorem callback_contract_counterexample:
  "\<not> (\<forall>x \<in> set (callbacks 0 (snd (run node_parse node_format init bareHostEvents))).
        \<exists>p. x = (0, \<lparr>success = True,
                      data = Some \<lparr>ProxyData.port = p, originalUrl = ''http://host''\<rparr>\<rparr>)) \<and>
   length (connectedEvents 0 twiceConnectedEvents) = 2 \<and>
   distinct (listeningServers twiceConnectedEvents) \<and>
   callbacks 0 (snd (run node_parse node_format init twiceConnectedEvents)) =
     [(0, \<lparr>success = True,
          data = Some \<lparr>ProxyData.port = 8080,
                       originalUrl = ''rtmp://example.com:443/stream''\<rparr>\<rparr>),
      (0, \<lparr>success = True,
          data = Some \<lparr>ProxyData.port = 8081,
                       originalUrl = ''rtmp://example.com:443/stream''\<rparr>\<rparr>)]"
  by (simp add: bareHost_callbacks twiceConnected_callbacks)
     (simp add: twiceConnectedEvents_def connectedEvents_def listeningServers_def)

subsection \<open>The single local connection\<close>

lemma filter_fst_distinct:
  "distinct (map fst xs) \<Longrightarrow> (s, c) \<in> set xs \<Longrightarrow> filter (\<lambda>(s', c'). s' = s) xs = [(s, c)]"
proof (induction xs)
  case Nil
  then show ?case by simp
next
  case (Cons x xs)
  show ?case
  proof (cases "x = (s, c)")
    case True
    with Cons.prems(1) have "\<forall>y \<in> set xs. fst y \<noteq> s"
      by (auto simp: image_iff)
    then have "filter (\<lambda>(s', c'). s' = s) xs = []"
      by (auto simp: filter_empty_conv)
    with True show ?thesis by simp
  next
    case False
    with Cons.prems have in_xs: "(s, c) \<in> set xs" by auto
    with Cons.prems(1) have "fst x \<noteq> s"
      by (auto simp: image_iff)
    with Cons.IH in_xs Cons.prems(1) show ?thesis
      by (cases x) simp
  qed
qed

lemma held_connection:
  assumes "consistent st" and "s < length (servers st)"
    and "clientConn (servers st ! s) = Some first"
  shows "filter (\<lambda>(s', c). s' = s) (relays st) = [(s, first)]"
proof -
  from assms have "(s, first) \<in> set (relays st)" and "distinct (map fst (relays st))"
    by (simp_all add: consistent_def)
  then show ?thesis
    by (simp add: filter_fst_distinct)
qed

lemma clientConn_step:
  assumes "s < length (servers st)" and "clientConn (servers st ! s) = Some first"
  shows "s < length (servers (fst (step pu fu st e))) \<and>
         clientConn (servers (fst (step pu fu st e)) ! s) = Some first"
proof (cases e)
  case (OnConnection s' c)
  with assms show ?thesis
    by (cases "clientConn (servers st ! s')")
       (auto simp: step.simps onConnection_def nth_list_update)
qed (use assms in \<open>simp_all add: step.simps(1,3-17) authenticate_state createChromiumSocket_def
      onRequestSocketConnected_def startProxyConnection_def onRequestClose_def Let_def
      nth_append split: option.splits prod.splits\<close>)

lemma clientConn_run:
  assumes "s < length (servers st)" and "clientConn (servers st ! s) = Some first"
  shows "s < length (servers (fst (run pu fu st es))) \<and>
         clientConn (servers (fst (run pu fu st es)) ! s) = Some first"
  using assms
proof (induction es arbitrary: st)
  case Nil
  then show ?case by simp
next
  case (Cons e es)
  from clientConn_step [OF Cons.prems, of pu fu e] show ?case
    by (simp add: Cons.IH)
qed

lemma onSocket_none: "conn \<notin> snd ` set (relays st) \<Longrightarrow> onSocket st conn listener = []"
  by (auto simp: onSocket_def image_iff)

lemma localWrites_simps [simp]:
  "localWrites conn [] = []"
  "localWrites conn (xs @ ys) = localWrites conn xs @ localWrites conn ys"
  "localWrites conn (ConnWrite c d # as) = (if c = conn then d # localWrites conn as else localWrites conn as)"
  "localWrites conn (WriteToLog m # as) = localWrites conn as"
  by (simp_all add: localWrites_def)

lemma localWrites_concat_map:
  "(\<And>x. x \<in> set xs \<Longrightarrow> localWrites conn (f x) = []) \<Longrightarrow>
   localWrites conn (concat (map f xs)) = []"
  by (induction xs) simp_all

lemma localWrites_none:
  assumes "conn \<notin> snd ` set (relays st)"
  shows "localWrites conn (snd (step pu fu st (OnResponseData resp d))) = []"
proof -
  have "localWrites conn
          (concat (map (\<lambda>(server, c).
                          if response (servers st ! server) = resp then onResponseData c d else [])
                     (relays st))) = []"
  proof (rule localWrites_concat_map)
    fix x
    assume "x \<in> set (relays st)"
    with assms have "snd x \<noteq> conn"
      by auto
    then show "localWrites conn
                 (case x of (server, c) \<Rightarrow>
                    if response (servers st ! server) = resp then onResponseData c d else []) = []"
      by (cases x) (simp add: onResponseData_def)
  qed
  then show ?thesis
    by (simp add: step.simps)
qed

lemma fst_run_append:
  "fst (run pu fu st (es @ es')) = fst (run pu fu (fst (run pu fu st es)) es')"
  by (induction es arbitrary: st) simp_all

lemma snd_run_append:
  "snd (run pu fu st (es @ es')) =
   snd (run pu fu st es) @ snd (run pu fu (fst (run pu fu st es)) es')"
  by (induction es arbitrary: st) simp_all

lemma relayEvents_state: "fst (run node_parse node_format init relayEvents) = relayState"
  by (simp add: relayEvents_def fst_run_append readyEvents_run)
     (simp add: readyState_def relayState_def model_defs)

lemma relay_run: "run node_parse node_format init relayEvents =
   (relayState, snd (run node_parse node_format init relayEvents))"
  using relayEvents_state by (metis prod.collapse)

text \<open>
  C4. In a state the module reaches in which the proxy \<open>server\<close> holds the connection
  \<open>first\<close>: exactly one listener set is registered for the proxy, that of \<open>first\<close>; a
  further connection \<open>conn\<close> is ended at once, the state stays as it is (so \<open>first\<close> is not
  replaced and no listener is put on \<open>conn\<close>), and the only calls made are the line in the
  log and \<open>conn.end()\<close>, neither a callback of the request nor a notification on the
  event bus; whatever events follow, the proxy keeps \<open>first\<close> and only \<open>first\<close>; and a
  socket that no proxy accepted has no listener, so its data reaches no upstream
  request, and no upstream data is written to it.
\<close>

theorem duplicate_connection_rejected:
  assumes "run pu fu init es = (st, acts)"
    and "s < length (servers st)" and "clientConn (servers st ! s) = Some first"
  shows "filter (\<lambda>(s', c). s' = s) (relays st) = [(s, first)] \<and>
         step pu fu st (OnConnection s conn) =
           (st, [WriteToLog ''proxy socket duplicate connection: '', ConnEnd conn]) \<and>
         (\<forall>es'. clientConn (servers (fst (run pu fu st es')) ! s) = Some first \<and>
                filter (\<lambda>(s', c). s' = s) (relays (fst (run pu fu st es'))) = [(s, first)]) \<and>
         (conn \<notin> snd ` set (relays st) \<longrightarrow>
            (\<forall>d. snd (step pu fu st (OnConnData conn d)) = []) \<and>
            (\<forall>resp d. localWrites conn (snd (step pu fu st (OnResponseData resp d))) = []))"
proof -
  have cons: "consistent st"
    using assms(1) by (rule reachable_consistent)
  have one: "filter (\<lambda>(s', c). s' = s) (relays st) = [(s, first)]"
    using cons assms(2,3) by (rule held_connection)
  have dup: "step pu fu st (OnConnection s conn) =
               (st, [WriteToLog ''proxy socket duplicate connection: '', ConnEnd conn])"
    using assms(2,3) by (simp add: step.simps onConnection_def)
  have life: "clientConn (servers (fst (run pu fu st es')) ! s) = Some first \<and>
              filter (\<lambda>(s', c). s' = s) (relays (fst (run pu fu st es'))) = [(s, first)]" for es'
  proof -
    have "consistent (fst (run pu fu st es'))"
      using cons by (rule consistent_run)
    with clientConn_run [OF assms(2,3), of pu fu es'] show ?thesis
      by (simp add: held_connection)
  qed
  have quiet: "snd (step pu fu st (OnConnData conn d)) = []"
    if "conn \<notin> snd ` set (relays st)" for d
    using that by (simp add: step.simps onSocket_none)
  from one dup life quiet localWrites_none show ?thesis
    by blast
qed

text \<open>
  The theorem in the state \<open>relayState\<close>, where server 0 holds socket 3 and socket 9
  connects next.
\<close>

theorem duplicate_connection_rejected_witness:
  "clientConn (servers relayState ! 0) = Some 3 \<and>
   step node_parse node_format relayState (OnConnection 0 9) =
     (relayState, [WriteToLog ''proxy socket duplicate connection: '', ConnEnd 9]) \<and>
   clientConn (servers (fst (run node_parse node_format relayState
                               [OnConnection 0 9, OnConnData 9 [1, 2]])) ! 0) = Some 3 \<and>
   snd (step node_parse node_format relayState (OnConnData 9 [1, 2])) = [] \<and>
   localWrites 9 (snd (step node_parse node_format relayState (OnResponseData 0 [4, 5]))) = []"
proof -
  have held: "0 < length (servers relayState)" "clientConn (servers relayState ! 0) = Some 3"
    and fresh: "9 \<notin> snd ` set (relays relayState)"
    by (simp_all add: relayState_def)
  from duplicate_connection_rejected [OF relay_run held, of 9] fresh held(2)
  show ?thesis
    by blast
qed

subsection \<open>The registry\<close>

lemma createChromiumSocket_state:
  "fst (createChromiumSocket pu fu rq st) =
     st\<lparr>requestMap := (requestMap st)(CreateProxyRequest.url rq \<mapsto> length (requests st)),
        requests := requests st @
          [\<lparr>request = length (requests st), req = rq,
            originalUrl = pu (CreateProxyRequest.url rq)\<rparr>]\<rparr>"
  by (simp add: createChromiumSocket_def Let_def case_prod_beta)

lemma createChromiumSocket_acts:
  "snd (createChromiumSocket pu fu rq st) =
     snd (remapProtocol (pu (CreateProxyRequest.url rq)) (pu (CreateProxyRequest.url rq))) @
     [WriteToLog ''mapped URL: '',
      NetRequest (length (requests st))
        (fu (fst (remapProtocol (pu (CreateProxyRequest.url rq))
                                (pu (CreateProxyRequest.url rq))))),
      CreateConnection (length (requests st))]"
  by (simp add: createChromiumSocket_def Let_def case_prod_beta)

lemma registered_under_requested_url:
  "requestMap readyState ''rtmp://example.com:443/stream'' = Some 0"
  "requestMap readyState ''https://example.com:443/stream'' = None"
  by (simp_all add: readyState_def)

text \<open>
  The statement-by-statement form gives the calls and the final state of
  \<open>createChromiumSocket\<close>.
\<close>

lemma createChromiumSocket_calls_agree:
  "map snd (createChromiumSocket_calls pu fu rq st) = snd (createChromiumSocket pu fu rq st)"
  "fst (last (createChromiumSocket_calls pu fu rq st)) = fst (createChromiumSocket pu fu rq st)"
  by (simp_all add: createChromiumSocket_calls_def createChromiumSocket_def Let_def
      case_prod_beta comp_def)

text \<open>
  The order of line 89 and line 123: \<open>createConnection\<close> is the last call, it is made
  once, and it is made when the request object is in the registry under \<open>req.url\<close>; every
  call before it, \<open>net.request\<close> among them, is made in the state in which
  \<open>createChromiumSocket\<close> was entered.
\<close>

lemma registered_before_connection:
  "\<exists>before st1.
     createChromiumSocket_calls pu fu rq st =
       before @ [(st1, CreateConnection (length (requests st)))] \<and>
     st1 = fst (createChromiumSocket pu fu rq st) \<and>
     requestMap st1 (CreateProxyRequest.url rq) = Some (length (requests st)) \<and>
     (\<forall>(st0, a) \<in> set before. st0 = st \<and> a \<noteq> CreateConnection (length (requests st)))"
proof -
  have logs: "CreateConnection r \<notin> set (snd (remapProtocol u v))" for r u v
    by (simp add: remapProtocol_def Let_def split: option.splits)
  show ?thesis
    using logs [of "length (requests st)" "pu (CreateProxyRequest.url rq)"
        "pu (CreateProxyRequest.url rq)"]
    by (auto simp: createChromiumSocket_calls_def createChromiumSocket_state Let_def
        case_prod_beta)
qed

text \<open>
  For a URL other than \<open>__proto__\<close>: whatever events follow the call, a \<open>close\<close> event
  of the request object leaves no own property under \<open>req.url\<close>, and a read of the
  registry under \<open>req.url\<close> finds no request object.
\<close>

lemma removed_on_close:
  assumes "CreateProxyRequest.url rq \<noteq> ''__proto__''"
  shows "requestMap (fst (step pu fu (fst (run pu fu (fst (createChromiumSocket pu fu rq st)) es))
                       (OnRequestClose (length (requests st)))))
           (CreateProxyRequest.url rq) = None \<and>
         (\<forall>q. getProperty
                (requestMap (fst (step pu fu
                   (fst (run pu fu (fst (createChromiumSocket pu fu rq st)) es))
                   (OnRequestClose (length (requests st))))))
                (CreateProxyRequest.url rq) \<noteq> RequestObject q)"
proof -
  let ?r = "length (requests st)"
  let ?st1 = "fst (createChromiumSocket pu fu rq st)"
  have new: "?r < length (requests ?st1)"
    and sess: "req (requests ?st1 ! ?r) = rq"
    by (simp_all add: createChromiumSocket_state)
  have "requestMap (fst (step pu fu (fst (run pu fu ?st1 es)) (OnRequestClose ?r)))
          (CreateProxyRequest.url rq) = None"
    using requests_run_nth [OF new, of pu fu es] sess assms
    by (simp add: step.simps onRequestClose_def deleteProperty_def)
  then show ?thesis
    using assms by (simp add: getProperty_def split: option.splits)
qed

text \<open>
  C5 fails in the code for the URL \<open>__proto__\<close>. For whatever \<open>parseUrl\<close> and \<open>formatUrl\<close>,
  after \<open>createChromiumSocket\<close> is called in the initial state with that URL, the only
  entry of \<open>requestMap\<close> is the one under \<open>__proto__\<close>: the request object 0 is the
  prototype of the registry, and the registry has no own property. The \<open>close\<close> event of
  the request object runs its listener, whose \<open>delete\<close> finds no own property to remove:
  the state is as before, a read of the registry under \<open>req.url\<close> still gives the request
  object 0, and a call of \<open>authenticateChromiumSocket\<close> for that URL after the close
  hands the credentials to the closed request. The claim has no session registered
  under the URL after the close.
\<close>

theorem proto_url_registered_after_close:
  "requestMap (fst (step pu fu init (CallCreateChromiumSocket protoRequest))) =
     [''__proto__'' \<mapsto> 0] \<and>
   step pu fu (fst (step pu fu init (CallCreateChromiumSocket protoRequest))) (OnRequestClose 0) =
     (fst (step pu fu init (CallCreateChromiumSocket protoRequest)),
      [WriteToLog ''proxy socket request closed, clean up '']) \<and>
   getProperty
     (requestMap (fst (run pu fu init [CallCreateChromiumSocket protoRequest, OnRequestClose 0])))
     (CreateProxyRequest.url protoRequest) = RequestObject 0 \<and>
   snd (run pu fu init
          [CallCreateChromiumSocket protoRequest, OnRequestClose 0,
           CallAuthenticateChromiumSocket protoAuth]) =
     snd (createChromiumSocket pu fu protoRequest init) @
     [WriteToLog ''proxy socket request closed, clean up '',
      AuthenticateSocket 0 ''user'' ''secret'']"
proof -
  let ?st1 = "fst (step pu fu init (CallCreateChromiumSocket protoRequest))"
  have st1: "?st1 = \<lparr>requestMap = [''__proto__'' \<mapsto> 0],
                       requests = [\<lparr>request = 0, req = protoRequest,
                                    originalUrl = pu ''__proto__''\<rparr>],
                       servers = [], relays = []\<rparr>"
    by (simp add: step.simps createChromiumSocket_state init_def protoRequest_def)
  have close: "step pu fu ?st1 (OnRequestClose 0) =
                 (?st1, [WriteToLog ''proxy socket request closed, clean up ''])"
    unfolding st1 by (simp add: step.simps onRequestClose_def deleteProperty_def protoRequest_def)
  have auth: "step pu fu ?st1 (CallAuthenticateChromiumSocket protoAuth) =
                (?st1, [AuthenticateSocket 0 ''user'' ''secret''])"
    unfolding st1
    by (simp add: step.simps authenticateChromiumSocket_def getProperty_def protoAuth_def)
  have read: "getProperty (requestMap ?st1) (CreateProxyRequest.url protoRequest) = RequestObject 0"
    unfolding st1 by (simp add: getProperty_def protoRequest_def)
  have acts1: "snd (step pu fu init (CallCreateChromiumSocket protoRequest)) =
                 snd (createChromiumSocket pu fu protoRequest init)"
    by (simp add: step.simps)
  from st1 close auth read acts1 show ?thesis
    by simp
qed

subsection \<open>Authentication\<close>

text \<open>
  In every state the module reaches: when the read of the registry gives a request
  object, that object was created for this URL and receives the user name and the
  password through \<open>authenticateSocket\<close>, and nothing else happens; when the read gives
  \<open>undefined\<close>, the call changes nothing and makes no call at all.
\<close>

lemma authenticate_registered:
  assumes "run pu fu init es = (st, acts)"
    and "getProperty (requestMap st) (AuthProxyRequest.url rq) = RequestObject r"
  shows "r < length (requests st) \<and>
         CreateProxyRequest.url (req (requests st ! r)) = AuthProxyRequest.url rq \<and>
         step pu fu st (CallAuthenticateChromiumSocket rq) =
           (st, [AuthenticateSocket r (username rq) (password rq)])"
proof -
  have "consistent st"
    using assms(1) by (rule reachable_consistent)
  moreover from assms(2) have "requestMap st (AuthProxyRequest.url rq) = Some r"
    by (simp add: getProperty_def split: if_splits option.splits)
  ultimately show ?thesis
    using assms(2) by (simp add: consistent_def step.simps authenticateChromiumSocket_def)
qed

lemma authenticate_unregistered:
  assumes "getProperty (requestMap st) (AuthProxyRequest.url rq) = Undefined"
  shows "step pu fu st (CallAuthenticateChromiumSocket rq) = (st, [])"
  using assms by (simp add: step.simps authenticateChromiumSocket_def)

text \<open>
  While the prototype of the registry is \<open>Object.prototype\<close>, a URL that is neither a key
  of the registry nor \<open>__proto__\<close> nor one of \<open>objectPrototypeNames\<close> reads as
  \<open>undefined\<close>.
\<close>

lemma unregistered_url_undefined:
  assumes "requestMap st ''__proto__'' = None" and "requestMap st k = None"
    and "k \<noteq> ''__proto__''" and "k \<notin> set objectPrototypeNames"
  shows "getProperty (requestMap st) k = Undefined"
  using assms by (simp add: getProperty_def)

text \<open>
  C7 fails in the code for a URL that is the name of a member of \<open>Object.prototype\<close>. In
  the initial state, in which no session is registered, \<open>authenticateChromiumSocket\<close>
  called with the URL \<open>constructor\<close> reads the function that the registry inherits under
  that name and calls its member \<open>authenticateSocket\<close>, which does not exist: the call
  raises a \<open>TypeError\<close> that reaches the caller, where the claim has a call without effect
  and without error. The same happens in \<open>readyState\<close>, where a session is registered
  under another URL.
\<close>

theorem authenticate_inherited_name_raises:
  "requestMap init (AuthProxyRequest.url constructorAuth) = None \<and>
   getProperty (requestMap init) (AuthProxyRequest.url constructorAuth) =
     ObjectPrototypeMember ''constructor'' \<and>
   authenticateChromiumSocket constructorAuth init =
     Inl (TypeError ''request.authenticateSocket is not a function'') \<and>
   step pu fu init (CallAuthenticateChromiumSocket constructorAuth) =
     (init, [Raise (TypeError ''request.authenticateSocket is not a function'')]) \<and>
   step pu fu readyState (CallAuthenticateChromiumSocket constructorAuth) =
     (readyState, [Raise (TypeError ''request.authenticateSocket is not a function'')])"
  by (simp add: step.simps authenticateChromiumSocket_def getProperty_def
      objectPrototypeNames_def constructorAuth_def init_def readyState_def)

subsection \<open>Schemes without a transport protocol\<close>

text \<open>
  C10. When the scheme of the requested URL is not one of the four of the table, or its
  entry has no \<open>chromiumProtocol\<close>, the request object is created for
  \<open>formatUrl (parseUrl req.url)\<close>, the requested URL as parsed and written back, with the
  protocol as it was; the session is set up as for any other request, no error is
  reported, and a \<open>requestSocketConnected\<close> event that follows starts the local server.
\<close>

theorem unmapped_scheme_passes_through:
  assumes "case protocol (pu (CreateProxyRequest.url rq)) of
             None \<Rightarrow> True
           | Some p \<Rightarrow>
               p \<notin> {''rtmp:'', ''rtmps:'', ''http:'', ''https:''} \<or>
               (case ProtocolMap p of Some e \<Rightarrow> chromiumProtocol e = None | None \<Rightarrow> False)"
  shows "createChromiumSocket pu fu rq st =
           (st\<lparr>requestMap := (requestMap st)(CreateProxyRequest.url rq \<mapsto> length (requests st)),
               requests := requests st @
                 [\<lparr>request = length (requests st), req = rq,
                   originalUrl = pu (CreateProxyRequest.url rq)\<rparr>]\<rparr>,
            [WriteToLog ''mapped URL: '',
             NetRequest (length (requests st)) (fu (pu (CreateProxyRequest.url rq))),
             CreateConnection (length (requests st))]) \<and>
         snd (step pu fu (fst (createChromiumSocket pu fu rq st))
                (OnRequestSocketConnected (length (requests st)) resp)) =
           [WriteToLog ''requestSocketConnected'', CreateServer (length (servers st)),
            SetMaxConnections (length (servers st)) 1,
            ServerListen (length (servers st)) 0 ''localhost'']"
proof -
  have same: "remapProtocol (pu (CreateProxyRequest.url rq)) (pu (CreateProxyRequest.url rq)) =
                (pu (CreateProxyRequest.url rq), [])"
    using assms
    by (auto simp: remapProtocol_def truthy_def ProtocolMap_def split: option.splits if_splits)
  then have first: "createChromiumSocket pu fu rq st =
           (st\<lparr>requestMap := (requestMap st)(CreateProxyRequest.url rq \<mapsto> length (requests st)),
               requests := requests st @
                 [\<lparr>request = length (requests st), req = rq,
                   originalUrl = pu (CreateProxyRequest.url rq)\<rparr>]\<rparr>,
            [WriteToLog ''mapped URL: '',
             NetRequest (length (requests st)) (fu (pu (CreateProxyRequest.url rq))),
             CreateConnection (length (requests st))])"
    by (simp add: createChromiumSocket_def Let_def)
  show ?thesis
    unfolding first
    by (simp add: step.simps onRequestSocketConnected_def startProxyConnection_def Let_def)
qed

lemma parse_ftp:
  "node_parse ''ftp://files.example.com/pub'' =
     \<lparr>protocol = Some ''ftp:'', slashes = True, auth = None,
      host = Some ''files.example.com'', port = None,
      hostname = Some ''files.example.com'', pathname = Some ''/pub'',
      search = None, hash = None\<rparr>"
  by (simp add: url_model_defs Let_def)

lemma format_ftp:
  "node_format (node_parse ''ftp://files.example.com/pub'') = ''ftp://files.example.com/pub''"
  unfolding parse_ftp by (simp add: url_model_defs Let_def)

text \<open>The theorem for a request for \<open>ftp://files.example.com/pub\<close>.\<close>

theorem unmapped_scheme_passes_through_witness:
  "protocol (node_parse (CreateProxyRequest.url ftpRequest)) = Some ''ftp:'' \<and>
   snd (createChromiumSocket node_parse node_format ftpRequest init) =
     [WriteToLog ''mapped URL: '', NetRequest 0 ''ftp://files.example.com/pub'',
      CreateConnection 0] \<and>
   snd (step node_parse node_format
          (fst (createChromiumSocket node_parse node_format ftpRequest init))
          (OnRequestSocketConnected 0 7)) =
     [WriteToLog ''requestSocketConnected'', CreateServer 0, SetMaxConnections 0 1,
      ServerListen 0 0 ''localhost'']"
proof -
  have u: "CreateProxyRequest.url ftpRequest = ''ftp://files.example.com/pub''"
    by (simp add: ftpRequest_def)
  have h: "case protocol (node_parse (CreateProxyRequest.url ftpRequest)) of
             None \<Rightarrow> True
           | Some p \<Rightarrow>
               p \<notin> {''rtmp:'', ''rtmps:'', ''http:'', ''https:''} \<or>
               (case ProtocolMap p of Some e \<Rightarrow> chromiumProtocol e = None | None \<Rightarrow> False)"
    by (simp add: u parse_ftp)
  have z: "length (requests init) = 0" "length (servers init) = 0"
    by (simp_all add: init_def)
  note inst = unmapped_scheme_passes_through [of node_parse ftpRequest node_format init 7, OF h]
  from inst [THEN conjunct1] have calls:
    "snd (createChromiumSocket node_parse node_format ftpRequest init) =
       [WriteToLog ''mapped URL: '', NetRequest 0 ''ftp://files.example.com/pub'',
        CreateConnection 0]"
    by (simp add: z u format_ftp)
  from inst [THEN conjunct2] have next_step:
    "snd (step node_parse node_format
            (fst (createChromiumSocket node_parse node_format ftpRequest init))
            (OnRequestSocketConnected 0 7)) =
       [WriteToLog ''requestSocketConnected'', CreateServer 0, SetMaxConnections 0 1,
        ServerListen 0 0 ''localhost'']"
    by (simp only: z)
  from calls next_step show ?thesis
    by (simp add: u parse_ftp)
qed

subsection \<open>The relay\<close>

lemma upstreamWrites_simps [simp]:
  "upstreamWrites r [] = []"
  "upstreamWrites r (xs @ ys) = upstreamWrites r xs @ upstreamWrites r ys"
  "upstreamWrites r (WriteSocket r' d # as) =
     (if r' = r then d # upstreamWrites r as else upstreamWrites r as)"
  "upstreamWrites r (WriteToLog m # as) = upstreamWrites r as"
  "upstreamWrites r (ConnWrite c d # as) = upstreamWrites r as"
  by (simp_all add: upstreamWrites_def)

lemma localWrites_WriteSocket [simp]:
  "localWrites conn (WriteSocket r d # as) = localWrites conn as"
  by (simp add: localWrites_def)

lemma upstreamWrites_concat_map:
  "upstreamWrites r (concat (map f xs)) = concat (map (\<lambda>x. upstreamWrites r (f x)) xs)"
  by (induction xs) simp_all

lemma localWrites_concat_map_eq:
  "localWrites c (concat (map f xs)) = concat (map (\<lambda>x. localWrites c (f x)) xs)"
  by (induction xs) simp_all

lemma concat_map_if_filter:
  "concat (map (\<lambda>x. if P x then [d] else []) xs) = map (\<lambda>x. d) (filter P xs)"
  by (induction xs) simp_all

lemma filter_within:
  assumes "filter Q xs = [y]" and "\<And>x. x \<in> set xs \<Longrightarrow> P x \<Longrightarrow> Q x"
  shows "filter P xs = (if P y then [y] else [])"
proof -
  have "filter P xs = filter P (filter Q xs)"
    using assms(2) by (auto simp: filter_filter intro: filter_cong)
  with assms(1) show ?thesis
    by simp
qed

text \<open>Data events leave the state as it is.\<close>

lemma data_step_state: "isData e \<Longrightarrow> fst (step pu fu st e) = st"
  by (cases e) (simp_all add: step.simps)

lemma data_run_state: "list_all isData es \<Longrightarrow> fst (run pu fu st es) = st"
  by (induction es) (simp_all add: data_step_state)

lemma upstreamWrites_data_step:
  assumes one: "filter (\<lambda>(s', c'). s' = s) (relays st) = [(s, c)]"
    and own: "request (proxyCallback (servers st ! s)) = r"
    and alone: "\<And>s' c'. (s', c') \<in> set (relays st) \<Longrightarrow>
                  request (proxyCallback (servers st ! s')) = r \<Longrightarrow> s' = s"
    and e: "isData e"
  shows "upstreamWrites r (snd (step pu fu st e)) = fromLocal c [e]"
proof (cases e)
  case (OnConnData c0 d)
  have pt: "upstreamWrites r
              (case x of (server, c') \<Rightarrow> if c' = c0 then onConnData fu st server d else []) =
            (if (case x of (s', c') \<Rightarrow> c' = c0 \<and> request (proxyCallback (servers st ! s')) = r)
             then [d] else [])" for x
    by (cases x) (simp add: onConnData_def)
  have "upstreamWrites r (snd (step pu fu st e)) =
          concat (map (\<lambda>x. upstreamWrites r
            (case x of (server, c') \<Rightarrow> if c' = c0 then onConnData fu st server d else []))
            (relays st))"
    unfolding OnConnData by (simp add: step.simps onSocket_def upstreamWrites_concat_map)
  also have "\<dots> = concat (map (\<lambda>x. if (case x of (s', c') \<Rightarrow> c' = c0 \<and>
                                  request (proxyCallback (servers st ! s')) = r)
                            then [d] else []) (relays st))"
    by (simp only: pt)
  also have "\<dots> = map (\<lambda>x. d) (filter (\<lambda>(s', c'). c' = c0 \<and>
                        request (proxyCallback (servers st ! s')) = r) (relays st))"
    by (rule concat_map_if_filter)
  also have "filter (\<lambda>(s', c'). c' = c0 \<and> request (proxyCallback (servers st ! s')) = r)
               (relays st) = (if c = c0 then [(s, c)] else [])"
    using filter_within [OF one, of "\<lambda>(s', c'). c' = c0 \<and>
        request (proxyCallback (servers st ! s')) = r"] alone own
    by auto
  finally show ?thesis
    unfolding OnConnData by (simp add: fromLocal_def)
next
  case (OnResponseData resp0 d)
  then show ?thesis
    by (simp add: step.simps upstreamWrites_concat_map onResponseData_def fromLocal_def
        split: prod.splits)
qed (use e in simp_all)

lemma localWrites_data_step:
  assumes one: "filter (\<lambda>(s', c'). s' = s) (relays st) = [(s, c)]"
    and resp: "response (servers st ! s) = resp"
    and alone: "\<And>s' c'. (s', c') \<in> set (relays st) \<Longrightarrow> c' = c \<Longrightarrow> s' = s"
    and e: "isData e"
  shows "localWrites c (snd (step pu fu st e)) = fromUpstream resp [e]"
proof (cases e)
  case (OnResponseData resp0 d)
  have pt: "localWrites c
              (case x of (server, c') \<Rightarrow>
                 if response (servers st ! server) = resp0 then onResponseData c' d else []) =
            (if (case x of (s', c') \<Rightarrow> response (servers st ! s') = resp0 \<and> c' = c)
             then [d] else [])" for x
    by (cases x) (simp add: onResponseData_def)
  have "localWrites c (snd (step pu fu st e)) =
          concat (map (\<lambda>x. localWrites c
            (case x of (server, c') \<Rightarrow>
               if response (servers st ! server) = resp0 then onResponseData c' d else []))
            (relays st))"
    unfolding OnResponseData by (simp add: step.simps localWrites_concat_map_eq)
  also have "\<dots> = concat (map (\<lambda>x. if (case x of (s', c') \<Rightarrow>
                                  response (servers st ! s') = resp0 \<and> c' = c)
                            then [d] else []) (relays st))"
    by (simp only: pt)
  also have "\<dots> = map (\<lambda>x. d) (filter (\<lambda>(s', c'). response (servers st ! s') = resp0 \<and> c' = c)
                                  (relays st))"
    by (rule concat_map_if_filter)
  also have "filter (\<lambda>(s', c'). response (servers st ! s') = resp0 \<and> c' = c) (relays st) =
               (if resp = resp0 then [(s, c)] else [])"
    using filter_within [OF one, of "\<lambda>(s', c'). response (servers st ! s') = resp0 \<and> c' = c"]
      alone resp
    by auto
  finally show ?thesis
    unfolding OnResponseData by (simp add: fromUpstream_def)
next
  case (OnConnData c0 d)
  have "localWrites c (onSocket st c0 (\<lambda>server. onConnData fu st server d)) = []"
    unfolding onSocket_def
    by (rule localWrites_concat_map) (simp add: onConnData_def split: prod.splits)
  with OnConnData show ?thesis
    by (simp add: step.simps fromUpstream_def)
qed (use e in simp_all)

lemma fromLocal_Cons: "fromLocal c (e # es) = fromLocal c [e] @ fromLocal c es"
  by (simp add: fromLocal_def)

lemma fromUpstream_Cons: "fromUpstream resp (e # es) = fromUpstream resp [e] @ fromUpstream resp es"
  by (simp add: fromUpstream_def)

lemma relay_data_run:
  assumes one: "filter (\<lambda>(s', c'). s' = s) (relays st) = [(s, c)]"
    and own: "request (proxyCallback (servers st ! s)) = r"
    and resp: "response (servers st ! s) = resp"
    and alone: "\<And>s' c'. (s', c') \<in> set (relays st) \<Longrightarrow> s' \<noteq> s \<Longrightarrow>
                  request (proxyCallback (servers st ! s')) \<noteq> r \<and> c' \<noteq> c"
    and es: "list_all isData es"
  shows "upstreamWrites r (snd (run pu fu st es)) = fromLocal c es \<and>
         localWrites c (snd (run pu fu st es)) = fromUpstream resp es"
  using es
proof (induction es)
  case Nil
  show ?case by (simp add: fromLocal_def fromUpstream_def)
next
  case (Cons e es)
  then have e: "isData e" and rest: "list_all isData es"
    by simp_all
  have st: "fst (step pu fu st e) = st"
    using e by (rule data_step_state)
  have up: "upstreamWrites r (snd (step pu fu st e)) = fromLocal c [e]"
    using one own _ e by (rule upstreamWrites_data_step) (use alone in blast)
  have down: "localWrites c (snd (step pu fu st e)) = fromUpstream resp [e]"
    using one resp _ e by (rule localWrites_data_step) (use alone in blast)
  from Cons.IH [OF rest] up down st show ?case
    by (simp add: fromLocal_Cons [of c e es] fromUpstream_Cons [of resp e es])
qed

lemma relayState_held:
  "0 < length (servers relayState)" "clientConn (servers relayState ! 0) = Some 3"
  by (simp_all add: relayState_def)

text \<open>
  C6. In a state the module reaches in which the proxy \<open>server\<close> of request \<open>r\<close>, started
  with the response stream \<open>resp\<close>, holds the connection \<open>c\<close>: a \<open>data\<close> event of \<open>c\<close> with
  the bytes \<open>d\<close> makes the module call \<open>writeSocket\<close> on \<open>r\<close> with \<open>d\<close>, and every \<open>writeSocket\<close>
  of that step carries \<open>d\<close>; a \<open>data\<close> event of \<open>resp\<close> with \<open>d\<close> makes it call \<open>write\<close> on \<open>c\<close>
  with \<open>d\<close>, and every \<open>write\<close> of that step carries \<open>d\<close>. When no other connected proxy
  belongs to \<open>r\<close> or shares the socket \<open>c\<close>, then over any sequence of \<open>data\<close> events the
  buffers written to \<open>r\<close> are the buffers that arrived from \<open>c\<close>, in the same order, and
  the buffers written to \<open>c\<close> are those that arrived from \<open>resp\<close>, in the same order.
\<close>

theorem relay_verbatim:
  assumes "run pu fu init es0 = (st, acts0)"
    and "s < length (servers st)" and "clientConn (servers st ! s) = Some c"
  shows "(let r = request (proxyCallback (servers st ! s)); resp = response (servers st ! s)
          in WriteSocket r d \<in> set (snd (step pu fu st (OnConnData c d))) \<and>
             (\<forall>r' d'. WriteSocket r' d' \<in> set (snd (step pu fu st (OnConnData c d))) \<longrightarrow> d' = d) \<and>
             ConnWrite c d \<in> set (snd (step pu fu st (OnResponseData resp d))) \<and>
             (\<forall>c' d'. ConnWrite c' d' \<in> set (snd (step pu fu st (OnResponseData resp d)))
                       \<longrightarrow> d' = d) \<and>
             ((\<forall>(s', c') \<in> set (relays st).
                  s' \<noteq> s \<longrightarrow> request (proxyCallback (servers st ! s')) \<noteq> r \<and> c' \<noteq> c) \<longrightarrow>
              (\<forall>es. list_all isData es \<longrightarrow>
                 fst (run pu fu st es) = st \<and>
                 upstreamWrites r (snd (run pu fu st es)) = fromLocal c es \<and>
                 localWrites c (snd (run pu fu st es)) = fromUpstream resp es)))"
proof -
  let ?r = "request (proxyCallback (servers st ! s))"
  let ?resp = "response (servers st ! s)"
  have cons: "consistent st"
    using assms(1) by (rule reachable_consistent)
  then have mem: "(s, c) \<in> set (relays st)"
    using assms(2,3) by (simp add: consistent_def)
  have one: "filter (\<lambda>(s', c'). s' = s) (relays st) = [(s, c)]"
    using cons assms(2,3) by (rule held_connection)
  have a1: "WriteSocket ?r d \<in> set (snd (step pu fu st (OnConnData c d)))"
    using mem by (force simp: step.simps onSocket_def onConnData_def)
  have a2: "d' = d" if "WriteSocket r' d' \<in> set (snd (step pu fu st (OnConnData c d)))" for r' d'
    using that by (auto simp: step.simps onSocket_def onConnData_def split: if_splits)
  have a3: "ConnWrite c d \<in> set (snd (step pu fu st (OnResponseData ?resp d)))"
    using mem by (force simp: step.simps onResponseData_def)
  have a4: "d' = d"
    if "ConnWrite c' d' \<in> set (snd (step pu fu st (OnResponseData ?resp d)))" for c' d'
    using that by (auto simp: step.simps onResponseData_def split: if_splits)
  have b: "fst (run pu fu st es) = st \<and>
           upstreamWrites ?r (snd (run pu fu st es)) = fromLocal c es \<and>
           localWrites c (snd (run pu fu st es)) = fromUpstream ?resp es"
    if alone: "\<forall>(s', c') \<in> set (relays st).
                 s' \<noteq> s \<longrightarrow> request (proxyCallback (servers st ! s')) \<noteq> ?r \<and> c' \<noteq> c"
      and es: "list_all isData es" for es
  proof -
    have "upstreamWrites ?r (snd (run pu fu st es)) = fromLocal c es \<and>
          localWrites c (snd (run pu fu st es)) = fromUpstream ?resp es"
      using one refl refl _ es by (rule relay_data_run) (use alone in blast)
    with data_run_state [OF es] show ?thesis
      by simp
  qed
  from a1 a2 a3 a4 b show ?thesis
    unfolding Let_def by blast
qed

text \<open>
  The theorem in \<open>relayState\<close>: two buffers from socket 3 and one from the response stream,
  interleaved.
\<close>

theorem relay_verbatim_witness:
  "WriteSocket 0 [1, 2, 3] \<in>
     set (snd (step node_parse node_format relayState (OnConnData 3 [1, 2, 3]))) \<and>
   ConnWrite 3 [4, 5] \<in>
     set (snd (step node_parse node_format relayState (OnResponseData 0 [4, 5]))) \<and>
   upstreamWrites 0
     (snd (run node_parse node_format relayState
             [OnConnData 3 [1], OnResponseData 0 [2], OnConnData 3 [3, 4]])) = [[1], [3, 4]] \<and>
   localWrites 3
     (snd (run node_parse node_format relayState
             [OnConnData 3 [1], OnResponseData 0 [2], OnConnData 3 [3, 4]])) = [[2]]"
proof -
  have r: "request (proxyCallback (servers relayState ! 0)) = 0"
    and resp: "response (servers relayState ! 0) = 0"
    and alone: "\<forall>(s', c') \<in> set (relays relayState).
                  s' \<noteq> 0 \<longrightarrow> request (proxyCallback (servers relayState ! s')) \<noteq> 0 \<and> c' \<noteq> 3"
    by (simp_all add: relayState_def)
  have es: "list_all isData [OnConnData 3 [1], OnResponseData 0 [2], OnConnData 3 [3, 4]]"
    by simp
  note to_upstream =
    relay_verbatim [OF relay_run relayState_held, of "[1, 2, 3]", unfolded Let_def r resp]
  note to_local =
    relay_verbatim [OF relay_run relayState_held, of "[4, 5]", unfolded Let_def r resp]
  note in_order =
    to_upstream [THEN conjunct2, THEN conjunct2, THEN conjunct2, THEN conjunct2, THEN mp,
      OF alone, THEN spec, THEN mp, OF es]
  have "fromLocal 3 [OnConnData 3 [1], OnResponseData 0 [2], OnConnData 3 [3, 4]] = [[1], [3, 4]]"
    and "fromUpstream 0 [OnConnData 3 [1], OnResponseData 0 [2], OnConnData 3 [3, 4]] = [[2]]"
    by (simp_all add: fromLocal_def fromUpstream_def)
  with in_order to_upstream [THEN conjunct1]
    to_local [THEN conjunct2, THEN conjunct2, THEN conjunct1]
  show ?thesis
    by simp
qed

subsection \<open>Teardown\<close>

lemma in_concat_map:
  "x \<in> set xs \<Longrightarrow> a \<in> set (f x) \<Longrightarrow> a \<in> set (concat (map f xs))"
  by auto

text \<open>
  C8. In a state the module reaches, an \<open>error\<close> event of the response stream \<open>resp\<close>
  changes nothing in the state, and for a proxy \<open>server\<close> started with \<open>resp\<close>: when the
  proxy holds a local connection, the connection is destroyed and the server is not
  closed in that step; when it holds none, the server is closed. Teardown follows in
  both cases: the \<open>close\<close> event of the destroyed connection closes the server, and the
  \<open>close\<close> event of the server closes the upstream socket of the request.
\<close>

theorem response_error_teardown:
  assumes "run pu fu init es = (st, acts)"
    and "s < length (servers st)" and "response (servers st ! s) = resp"
  shows "fst (step pu fu st (OnResponseError resp err)) = st \<and>
         (case clientConn (servers st ! s) of
            Some c \<Rightarrow>
              ConnDestroy c \<in> set (snd (step pu fu st (OnResponseError resp err))) \<and>
              ServerClose s \<notin> set (snd (step pu fu st (OnResponseError resp err))) \<and>
              ServerClose s \<in> set (snd (step pu fu st (OnConnClose c hadError)))
          | None \<Rightarrow>
              ServerClose s \<in> set (snd (step pu fu st (OnResponseError resp err)))) \<and>
         snd (step pu fu st (OnServerClose s)) =
           [WriteToLog ''proxy server closed'', WriteToLog ''close chromium socket'',
            CloseSocket (request (proxyCallback (servers st ! s)))]"
proof -
  have cons: "consistent st"
    using assms(1) by (rule reachable_consistent)
  have s_in: "s \<in> set [0 ..< length (servers st)]"
    using assms(2) by simp
  have unchanged: "fst (step pu fu st (OnResponseError resp err)) = st"
    by (simp add: step.simps)
  have closed: "snd (step pu fu st (OnServerClose s)) =
           [WriteToLog ''proxy server closed'', WriteToLog ''close chromium socket'',
            CloseSocket (request (proxyCallback (servers st ! s)))]"
    using assms(2) by (simp add: step.simps onServerClose_def)
  show ?thesis
  proof (cases "clientConn (servers st ! s)")
    case None
    have "ServerClose s \<in> set (snd (step pu fu st (OnResponseError resp err)))"
      unfolding step.simps snd_conv
      by (rule in_concat_map [OF s_in]) (simp add: assms(3) onResponseError_def None)
    with None unchanged closed show ?thesis
      by simp
  next
    case (Some c)
    have destroy: "ConnDestroy c \<in> set (snd (step pu fu st (OnResponseError resp err)))"
      unfolding step.simps snd_conv
      by (rule in_concat_map [OF s_in]) (simp add: assms(3) onResponseError_def Some)
    have keep: "ServerClose s \<notin> set (snd (step pu fu st (OnResponseError resp err)))"
      using Some by (auto simp: step.simps onResponseError_def split: if_splits option.splits)
    have "(s, c) \<in> set (relays st)"
      using cons assms(2) Some by (simp add: consistent_def)
    then have "ServerClose s \<in> set (snd (step pu fu st (OnConnClose c hadError)))"
      by (force simp: step.simps onSocket_def onConnClose_def)
    with Some destroy keep unchanged closed show ?thesis
      by simp
  qed
qed

text \<open>
  The theorem in \<open>relayState\<close>, where server 0 holds socket 3, and in \<open>readyState\<close>, where
  it holds no connection.
\<close>

theorem response_error_teardown_witness:
  "ConnDestroy 3 \<in> set (snd (step node_parse node_format relayState (OnResponseError 0 ''reset''))) \<and>
   ServerClose 0 \<notin> set (snd (step node_parse node_format relayState (OnResponseError 0 ''reset''))) \<and>
   ServerClose 0 \<in> set (snd (step node_parse node_format relayState (OnConnClose 3 True))) \<and>
   ServerClose 0 \<in> set (snd (step node_parse node_format readyState (OnResponseError 0 ''reset''))) \<and>
   snd (step node_parse node_format relayState (OnServerClose 0)) =
     [WriteToLog ''proxy server closed'', WriteToLog ''close chromium socket'', CloseSocket 0]"
proof -
  have a: "0 < length (servers relayState)" "response (servers relayState ! 0) = 0"
    "clientConn (servers relayState ! 0) = Some 3"
    "request (proxyCallback (servers relayState ! 0)) = 0"
    by (simp_all add: relayState_def)
  have b: "0 < length (servers readyState)" "response (servers readyState ! 0) = 0"
    "clientConn (servers readyState ! 0) = None"
    by (simp_all add: readyState_def)
  from response_error_teardown [OF relay_run a(1,2), of "''reset''" True]
    response_error_teardown [OF readyEvents_run_eq b(1,2), of "''reset''" True]
  show ?thesis
    by (simp add: a b)
qed

lemma onSocket_filter:
  "onSocket st c listener =
     concat (map (\<lambda>(s', c'). listener s') (filter (\<lambda>(s', c'). c' = c) (relays st)))"
proof -
  have "concat (map (\<lambda>(s', c'). if c' = c then listener s' else []) xs) =
        concat (map (\<lambda>(s', c'). listener s') (filter (\<lambda>(s', c'). c' = c) xs))"
    for xs :: "(server_ref \<times> socket_ref) list"
    by (induction xs) auto
  then show ?thesis
    by (simp add: onSocket_def)
qed

text \<open>
  C9. In a state the module reaches in which the proxy \<open>server\<close> holds the connection
  \<open>c\<close>: a \<open>close\<close> event of \<open>c\<close> makes the module call \<open>server.close()\<close> and leaves the
  state as it is; the \<open>close\<close> event of the server then makes it call \<open>closeSocket\<close> on
  the request of the proxy, which is a request the module created. When no other
  proxy shares the socket, the two events in this order give exactly the two calls,
  with their lines in the log.
\<close>

theorem local_close_closes_upstream:
  assumes "run pu fu init es = (st, acts)"
    and "s < length (servers st)" and "clientConn (servers st ! s) = Some c"
  shows "fst (step pu fu st (OnConnClose c hadError)) = st \<and>
         ServerClose s \<in> set (snd (step pu fu st (OnConnClose c hadError))) \<and>
         request (proxyCallback (servers st ! s)) < length (requests st) \<and>
         step pu fu st (OnServerClose s) =
           (st, [WriteToLog ''proxy server closed'', WriteToLog ''close chromium socket'',
                 CloseSocket (request (proxyCallback (servers st ! s)))]) \<and>
         ((\<forall>(s', c') \<in> set (relays st). s' \<noteq> s \<longrightarrow> c' \<noteq> c) \<longrightarrow>
            run pu fu st [OnConnClose c hadError, OnServerClose s] =
              (st, [WriteToLog ''proxy socket closed '', ServerClose s,
                    WriteToLog ''proxy server closed'', WriteToLog ''close chromium socket'',
                    CloseSocket (request (proxyCallback (servers st ! s)))]))"
proof -
  have cons: "consistent st"
    using assms(1) by (rule reachable_consistent)
  then have mem: "(s, c) \<in> set (relays st)"
    using assms(2,3) by (simp add: consistent_def)
  have one: "filter (\<lambda>(s', c'). s' = s) (relays st) = [(s, c)]"
    using cons assms(2,3) by (rule held_connection)
  have st1: "fst (step pu fu st (OnConnClose c hadError)) = st"
    by (simp add: step.simps)
  have close: "ServerClose s \<in> set (snd (step pu fu st (OnConnClose c hadError)))"
    using mem by (force simp: step.simps onSocket_def onConnClose_def)
  have "proxyCallback (servers st ! s) \<in> set (requests st)"
    using cons assms(2) by (simp add: consistent_def)
  then obtain i where "i < length (requests st)" "requests st ! i = proxyCallback (servers st ! s)"
    by (auto simp: in_set_conv_nth)
  with cons have valid: "request (proxyCallback (servers st ! s)) < length (requests st)"
    by (metis consistent_def)
  have up: "step pu fu st (OnServerClose s) =
           (st, [WriteToLog ''proxy server closed'', WriteToLog ''close chromium socket'',
                 CloseSocket (request (proxyCallback (servers st ! s)))])"
    using assms(2) by (simp add: step.simps onServerClose_def)
  have both: "run pu fu st [OnConnClose c hadError, OnServerClose s] =
              (st, [WriteToLog ''proxy socket closed '', ServerClose s,
                    WriteToLog ''proxy server closed'', WriteToLog ''close chromium socket'',
                    CloseSocket (request (proxyCallback (servers st ! s)))])"
    if alone: "\<forall>(s', c') \<in> set (relays st). s' \<noteq> s \<longrightarrow> c' \<noteq> c"
  proof -
    have "filter (\<lambda>(s', c'). c' = c) (relays st) = [(s, c)]"
      using filter_within [OF one, of "\<lambda>(s', c'). c' = c"] alone by auto
    then have "snd (step pu fu st (OnConnClose c hadError)) =
                       [WriteToLog ''proxy socket closed '', ServerClose s]"
      by (simp add: step.simps onSocket_filter onConnClose_def)
    with st1 up show ?thesis
      by (simp add: run.simps(2) case_prod_beta)
  qed
  from st1 close valid up both show ?thesis
    by blast
qed

text \<open>The theorem in \<open>relayState\<close>.\<close>

theorem local_close_closes_upstream_witness:
  "run node_parse node_format relayState [OnConnClose 3 False, OnServerClose 0] =
     (relayState, [WriteToLog ''proxy socket closed '', ServerClose 0,
                   WriteToLog ''proxy server closed'', WriteToLog ''close chromium socket'',
                   CloseSocket 0])"
proof -
  have a: "0 < length (servers relayState)" "clientConn (servers relayState ! 0) = Some 3"
    "request (proxyCallback (servers relayState ! 0)) = 0"
    "\<forall>(s', c') \<in> set (relays relayState). s' \<noteq> 0 \<longrightarrow> c' \<noteq> 3"
    by (simp_all add: relayState_def)
  from local_close_closes_upstream [OF relay_run a(1,2), of False] a(3,4)
  show ?thesis
    by simp
qed

end
